theory Spec2Isabelle
  imports Complex_Main "HOL-Library.Log_Nat"
begin

section \<open>Idleon spice optimizer: entity model, formatting and progressive simulation\<close>

text \<open>
  Python's \<open>int\<close> is modelled by \<^typ>\<open>int\<close>. In the simulation and the formatting a
  Python \<open>float\<close> is modelled by an exact \<^typ>\<open>real\<close>: rounding error, overflow and NaN
  are outside that model, and the properties proved of it are those that do not depend
  on exact arithmetic. The forage requirement is given a second time with the rounding
  of each double-precision operation written out (\<open>calculate_forage_requirement_f64\<close>),
  and what is stated of its growth is proved of that definition. The one non-finite
  value the source creates itself, \<open>float("inf")\<close>, is a constructor of the type
  \<open>xfloat\<close> below. Exceptions are values of the type \<open>py_error\<close>.
\<close>

datatype py_error = ValueError string | ZeroDivisionError

subsection \<open>Decimal rendering of integers (\<open>str(int)\<close>, \<open>f"{n}"\<close>)\<close>

definition digit_char :: "nat \<Rightarrow> char" where
  "digit_char d = (''0123456789'') ! d"

function str_digits :: "int \<Rightarrow> string" where
  "str_digits i =
     (if i < 10 then [digit_char (nat i)]
      else str_digits (i div 10) @ [digit_char (nat (i mod 10))])"
  by pat_completeness auto
termination
  by (relation "measure nat") auto

declare str_digits.simps [simp del]

definition str_int :: "int \<Rightarrow> string" where
  "str_int i = (if i < 0 then CHR ''-'' # str_digits (- i) else str_digits i)"

subsection \<open>constants.py\<close>

definition MAX_TEAM_SIZE :: nat where
  "MAX_TEAM_SIZE = 4"

subsection \<open>models.py\<close>

record Genetic =
  genetic_id :: int
  genetic_name :: string

record Pet =
  genetic :: Genetic
  pet_power :: "real option"

record Territory =
  territory_name :: string
  forage :: int
  fight :: int

record Team =
  team_name :: string
  pets :: "Pet list"
  team_territory :: "string option"
  manual_speed :: "real option"

text \<open>The property \<open>Team.size\<close>.\<close>

definition Team_size :: "Team \<Rightarrow> nat" where
  "Team_size team = length (pets team)"

text \<open>The property \<open>Team.speed\<close>.\<close>

definition Team_speed :: "Team \<Rightarrow> real" where
  "Team_speed team =
     (case manual_speed team of
        Some v \<Rightarrow> v
      | None \<Rightarrow> sum_list (map (\<lambda>pet. case pet_power pet of Some p \<Rightarrow> p | None \<Rightarrow> 0) (pets team)))"

text \<open>The property \<open>Team.genetics_counts\<close>: the dictionary built by the loop over the pets.\<close>

definition bump_count :: "(string \<rightharpoonup> int) \<Rightarrow> Pet \<Rightarrow> (string \<rightharpoonup> int)" where
  "bump_count counts pet =
     (let name = genetic_name (genetic pet)
      in counts(name \<mapsto> (case counts name of None \<Rightarrow> 0 | Some c \<Rightarrow> c) + 1))"

definition Team_genetics_counts :: "Team \<Rightarrow> (string \<rightharpoonup> int)" where
  "Team_genetics_counts team = foldl bump_count Map.empty (pets team)"

text \<open>
  \<open>Team.__post_init__\<close>: the validation the dataclass runs at the end of construction.
  The size check comes first, then the power check.
\<close>

definition Team_post_init :: "Team \<Rightarrow> py_error + unit" where
  "Team_post_init team =
     (if Team_size team > MAX_TEAM_SIZE then
        Inl (ValueError (''A team cannot contain more than '' @ str_int (int MAX_TEAM_SIZE)
                         @ '' pets (got '' @ str_int (int (Team_size team)) @ '').''))
      else if manual_speed team = None \<and> list_ex (\<lambda>pet. pet_power pet = None) (pets team) then
        Inl (ValueError ''All pets must have power if manual speed is not set.'')
      else Inr ())"

text \<open>
  Constructing a team, \<open>Team(name=..., pets=..., territory=..., manual_speed=...)\<close>: the
  fields are stored, then \<open>__post_init__\<close> runs; the object exists only if it raises
  nothing.
\<close>

definition new_Team :: "string \<Rightarrow> Pet list \<Rightarrow> string option \<Rightarrow> real option \<Rightarrow> py_error + Team" where
  "new_Team n ps terr ms =
     (let team = \<lparr>team_name = n, pets = ps, team_territory = terr, manual_speed = ms\<rparr>
      in case Team_post_init team of Inl e \<Rightarrow> Inl e | Inr _ \<Rightarrow> Inr team)"

subsection \<open>utils.py\<close>

text \<open>Python's \<open>round(x)\<close> on a float: the nearest integer, a tie going to the even one.\<close>

definition py_round :: "real \<Rightarrow> int" where
  "py_round x =
     (let f = \<lfloor>x\<rfloor>; d = x - of_int f
      in if d < 1 / 2 then f else if 1 / 2 < d then f + 1 else if even f then f else f + 1)"

text \<open>Python's \<open>divmod\<close> on integers (floor division, as \<open>div\<close> and \<open>mod\<close> on \<^typ>\<open>int\<close>).\<close>

definition divmod :: "int \<Rightarrow> int \<Rightarrow> int \<times> int" where
  "divmod a b = (a div b, a mod b)"

definition format_time :: "real \<Rightarrow> string" where
  "format_time hours =
     (let total_seconds = py_round (hours * 3600);
          (h, remainder) = divmod total_seconds 3600;
          (m, s) = divmod remainder 60
      in if h \<noteq> 0 then (if m \<noteq> 0 then str_int h @ ''h '' @ str_int m @ ''m'' else str_int h @ ''h'')
         else if m \<noteq> 0 then (if s \<noteq> 0 then str_int m @ ''m '' @ str_int s @ ''s'' else str_int m @ ''m'')
         else (if s \<noteq> 0 then str_int s @ ''s'' else ''0s''))"

text \<open>Python's \<open>int(x)\<close> on a float: truncation toward zero.\<close>

definition py_int :: "real \<Rightarrow> int" where
  "py_int x = (if x < 0 then \<lceil>x\<rceil> else \<lfloor>x\<rfloor>)"

text \<open>
  The format specifications \<open>.2f\<close> and \<open>.2E\<close>, for the non-negative values the
  source applies them to, over exact arithmetic: two decimals after the point, the last
  one rounded to nearest; for \<open>.2E\<close> a three-digit mantissa and an exponent of at least
  two digits with its sign.
\<close>

definition pad2 :: "int \<Rightarrow> string" where
  "pad2 n = (if n < 10 then CHR ''0'' # str_int n else str_int n)"

definition fmt_2f :: "real \<Rightarrow> string" where
  "fmt_2f x = (let q = py_round (x * 100) in str_int (q div 100) @ ''.'' @ pad2 (q mod 100))"

definition fmt_2E :: "real \<Rightarrow> string" where
  "fmt_2E x =
     (let e0 = length (str_int \<lfloor>x\<rfloor>) - 1;
          q0 = py_round (x * 100 / 10 ^ e0);
          (q, e) = (if q0 \<ge> 1000 then (100, e0 + 1) else (q0, e0))
      in str_int (q div 100) @ ''.'' @ pad2 (q mod 100) @ ''E+'' @ pad2 (int e))"

definition thresholds :: "(real \<times> string option) list" where
  "thresholds =
     [(10 ^ 24, None), (10 ^ 21, Some ''QQQ''), (10 ^ 18, Some ''QQ''), (10 ^ 15, Some ''Q''),
      (10 ^ 12, Some ''T''), (10 ^ 9, Some ''B''), (10 ^ 6, Some ''M''), (10 ^ 3, Some ''K'')]"

text \<open>The loop over the thresholds, returning at the first one the number reaches.\<close>

fun format_number_loop :: "(real \<times> string option) list \<Rightarrow> real \<Rightarrow> string" where
  "format_number_loop [] number = str_int (py_int number)"
| "format_number_loop ((threshold, suffix) # rest) number =
     (if number \<ge> threshold then
        (case suffix of Some sfx \<Rightarrow> fmt_2f (number / threshold) @ sfx | None \<Rightarrow> fmt_2E number)
      else format_number_loop rest number)"

definition format_number :: "real \<Rightarrow> string" where
  "format_number number = format_number_loop thresholds number"

subsection \<open>simulation.py\<close>

definition ALCHEMIC :: string where
  "ALCHEMIC = ''Alchemic''"

definition MONOLITHIC :: string where
  "MONOLITHIC = ''Monolithic''"

definition count_genetic :: "Team \<Rightarrow> string \<Rightarrow> int" where
  "count_genetic team name =
     sum_list (map (\<lambda>pet. 1) (filter (\<lambda>pet. genetic_name (genetic pet) = name) (pets team)))"

text \<open>
  \<open>calculate_forage_requirement\<close>. The division raises when its divisor is zero
  (\<open>monolithic_count = -5\<close>), and so does a zero base under a negative exponent.
\<close>

definition calculate_forage_requirement :: "real \<Rightarrow> int \<Rightarrow> int \<Rightarrow> py_error + real" where
  "calculate_forage_requirement base fills monolithic_count =
     (let d = of_int monolithic_count / 5 + 1
      in if d = 0 then Inl ZeroDivisionError
         else let bonus = 1 + 0.02 / d
              in if bonus = 0 \<and> fills < 0 then Inl ZeroDivisionError
                 else Inr ((base + of_int fills) * (bonus powi fills)))"

text \<open>
  The same function with the rounding of each floating-point operation written out.
  \<open>rnd64\<close> rounds a real to the nearest binary64 number, a tie going to the even
  significand: for \<open>2\<^sup>e \<le> \<bar>x\<bar> < 2\<^sup>e\<^sup>+\<^sup>1\<close> (\<open>e\<close> is \<open>binade \<bar>x\<bar>\<close>) the representable
  numbers are the multiples of \<open>2\<^sup>e\<^sup>-\<^sup>5\<^sup>2\<close>. The exponent range is not modelled (no
  overflow, no subnormal numbers), and \<open>**\<close> is taken to round the exact power
  correctly. Python's \<open>int / int\<close> rounds the exact quotient, and an \<open>int\<close> operand of a
  float operation is converted (rounded) first.
\<close>

definition binade :: "real \<Rightarrow> int" where
  "binade x = (if 1 \<le> x then bitlen \<lfloor>x\<rfloor> - 1 else - bitlen (\<lceil>1 / x\<rceil> - 1))"

definition rnd64 :: "real \<Rightarrow> real" where
  "rnd64 x =
     (if x = 0 then 0
      else let u = 2 powi (binade \<bar>x\<bar> - 52)
           in sgn x * (of_int (py_round (\<bar>x\<bar> / u)) * u))"

definition calculate_forage_requirement_f64 :: "real \<Rightarrow> int \<Rightarrow> int \<Rightarrow> py_error + real" where
  "calculate_forage_requirement_f64 base fills monolithic_count =
     (let d = rnd64 (rnd64 (of_int monolithic_count / 5) + 1)
      in if d = 0 then Inl ZeroDivisionError
         else let bonus = rnd64 (1 + rnd64 (rnd64 0.02 / d))
              in if bonus = 0 \<and> fills < 0 then Inl ZeroDivisionError
                 else Inr (rnd64 (rnd64 (base + rnd64 (of_int fills)) * rnd64 (bonus powi fills))))"

text \<open>The per-team dictionary built by \<open>init_state\<close>.\<close>

record team_state =
  spice :: real
  fills :: int
  progress :: real
  speed :: real
  alchemic :: int
  monolithic :: int

definition init_state :: "Team \<Rightarrow> team_state" where
  "init_state team =
     \<lparr>spice = 0, fills = 0, progress = 0, speed = Team_speed team,
      alchemic = count_genetic team ALCHEMIC, monolithic = count_genetic team MONOLITHIC\<rparr>"

text \<open>A time span: a finite number of hours, or \<open>float("inf")\<close>.\<close>

datatype xfloat = Fin real | PInf

text \<open>Python's \<open>min(x, y)\<close>: \<open>y\<close> if it is smaller, else \<open>x\<close>.\<close>

fun xmin :: "xfloat \<Rightarrow> xfloat \<Rightarrow> xfloat" where
  "xmin (Fin x) (Fin y) = (if y < x then Fin y else Fin x)"
| "xmin (Fin x) PInf = Fin x"
| "xmin PInf (Fin y) = Fin y"
| "xmin PInf PInf = PInf"

definition next_fill_time :: "Territory \<Rightarrow> team_state \<Rightarrow> py_error + xfloat" where
  "next_fill_time territory state =
     (if speed state \<le> 0 then Inr PInf
      else case calculate_forage_requirement (of_int (forage territory)) (fills state) (monolithic state) of
             Inl err \<Rightarrow> Inl err
           | Inr req \<Rightarrow> Inr (Fin ((req - progress state) / speed state)))"

text \<open>The body of \<open>for state in (a, b)\<close>, for one team.\<close>

definition advance :: "Territory \<Rightarrow> real \<Rightarrow> team_state \<Rightarrow> py_error + team_state" where
  "advance territory dt state =
     (let state1 = state\<lparr>progress := progress state + speed state * dt\<rparr>
      in case calculate_forage_requirement (of_int (forage territory)) (fills state1) (monolithic state1) of
           Inl err \<Rightarrow> Inl err
         | Inr req \<Rightarrow>
             Inr (if progress state1 \<ge> req
                  then state1\<lparr>fills := fills state1 + 1,
                              spice := spice state1 + (1 + 0.5 * of_int (alchemic state1)),
                              progress := 0\<rparr>
                  else state1))"

text \<open>
  The generator object: the arguments it closes over, its local variables (\<open>a\<close>, \<open>b\<close>
  and \<open>t\<close> are the fields \<open>state_a\<close>, \<open>state_b\<close> and \<open>t_now\<close>), and the place where it
  is suspended: \<open>at_return\<close> holds after the \<open>yield\<close> of the \<open>stop_at_breakeven\<close>
  branch, whose continuation is \<open>return\<close>; otherwise the continuation is the loop test.
  The labels are not used by the simulation.
\<close>

record generator =
  territory :: Territory
  max_hours :: int
  stop_at_breakeven :: bool
  state_a :: team_state
  state_b :: team_state
  timeline :: "real list"
  a_yield :: "real list"
  b_yield :: "real list"
  breakeven :: "real option"
  t_now :: real
  at_return :: bool

text \<open>
  What a \<open>yield\<close> hands out: \<open>(timeline, a_yield, b_yield, breakeven)\<close>. The lists are
  the generator's own, appended to in place; every append is followed by a \<open>yield\<close>
  before the generator stops, so whatever a consumer reads in them is the content at some
  \<open>yield\<close>.
\<close>

type_synonym emission = "real list \<times> real list \<times> real list \<times> real option"

definition emitted :: "generator \<Rightarrow> emission" where
  "emitted g = (timeline g, a_yield g, b_yield g, breakeven g)"

definition e_timeline :: "emission \<Rightarrow> real list" where
  "e_timeline e = fst e"

definition e_a_yield :: "emission \<Rightarrow> real list" where
  "e_a_yield e = fst (snd e)"

definition e_b_yield :: "emission \<Rightarrow> real list" where
  "e_b_yield e = fst (snd (snd e))"

definition e_breakeven :: "emission \<Rightarrow> real option" where
  "e_breakeven e = snd (snd (snd e))"

text \<open>
  Calling \<open>simulate_progressive\<close> creates the generator; nothing runs before the first
  \<open>next\<close>.
\<close>

definition simulate_progressive ::
  "Territory \<Rightarrow> Team \<Rightarrow> Team \<Rightarrow> string \<Rightarrow> string \<Rightarrow> int \<Rightarrow> bool \<Rightarrow> generator" where
  "simulate_progressive terr team_a team_b label_a label_b maxh stop =
     \<lparr>territory = terr, max_hours = maxh, stop_at_breakeven = stop,
      state_a = init_state team_a, state_b = init_state team_b,
      timeline = [0], a_yield = [0], b_yield = [0], breakeven = None, t_now = 0,
      at_return = False\<rparr>"

text \<open>
  One \<open>next()\<close> on the generator: one pass through the loop body. The result is an
  exception, \<open>None\<close> when the generator is exhausted (the loop test fails, \<open>break\<close>,
  or \<open>return\<close>), or the yielded tuple with the suspended generator. With \<open>dt\<close> infinite,
  \<open>t\<close> becomes infinite and exceeds \<open>max_hours\<close>: the loop breaks.
\<close>

definition gen_next :: "generator \<Rightarrow> py_error + (emission \<times> generator) option" where
  "gen_next g =
     (if at_return g then Inr None
      else if \<not> t_now g \<le> of_int (max_hours g) then Inr None
      else case next_fill_time (territory g) (state_a g) of
        Inl err \<Rightarrow> Inl err
      | Inr fa \<Rightarrow>
      (case next_fill_time (territory g) (state_b g) of
        Inl err \<Rightarrow> Inl err
      | Inr fb \<Rightarrow>
      (case xmin fa fb of
        PInf \<Rightarrow> Inr None
      | Fin dt \<Rightarrow>
          let t = t_now g + dt
          in if t > of_int (max_hours g) then Inr None
             else case advance (territory g) dt (state_a g) of
               Inl err \<Rightarrow> Inl err
             | Inr a \<Rightarrow>
             (case advance (territory g) dt (state_b g) of
               Inl err \<Rightarrow> Inl err
             | Inr b \<Rightarrow>
                 let g1 = g\<lparr>state_a := a, state_b := b, t_now := t,
                            timeline := timeline g @ [t],
                            a_yield := a_yield g @ [spice a],
                            b_yield := b_yield g @ [spice b]\<rparr>
                 in if breakeven g1 = None \<and> spice b > spice a then
                      let g2 = g1\<lparr>breakeven := Some t\<rparr>
                      in if stop_at_breakeven g2
                         then Inr (Some (emitted g2, g2\<lparr>at_return := True\<rparr>))
                         else Inr (Some (emitted g2, g2))
                    else Inr (Some (emitted g1, g1))))))"

text \<open>
  Pulling at most \<open>n\<close> elements out of a generator: the elements obtained, and how the
  pulling ended.
\<close>

datatype outcome = Suspended generator | Exhausted | Raised py_error

fun pull :: "nat \<Rightarrow> generator \<Rightarrow> emission list \<times> outcome" where
  "pull 0 g = ([], Suspended g)"
| "pull (Suc n) g =
     (case gen_next g of
        Inl err \<Rightarrow> ([], Raised err)
      | Inr None \<Rightarrow> ([], Exhausted)
      | Inr (Some (e, g')) \<Rightarrow> (let (es, r) = pull n g' in (e # es, r)))"

subsection \<open>The time format as the specification words it\<close>

text \<open>
  Written from the specification, not from the code: a number of seconds is decomposed
  into hours, minutes and seconds, and rendered as \<open>"{h}h {m}m"\<close> without the minutes
  part when it is zero, else \<open>"{m}m {s}s"\<close> without the seconds part when it is zero,
  else \<open>"{s}s"\<close>, else \<open>"0s"\<close>.
\<close>

definition spec_hms :: "int \<Rightarrow> int \<times> int \<times> int" where
  "spec_hms secs = (secs div 3600, (secs mod 3600) div 60, (secs mod 3600) mod 60)"

definition spec_render_hms :: "int \<times> int \<times> int \<Rightarrow> string" where
  "spec_render_hms hms =
     (case hms of (h, m, s) \<Rightarrow>
        if h \<noteq> 0 then str_int h @ ''h'' @ (if m = 0 then [] else '' '' @ str_int m @ ''m'')
        else if m \<noteq> 0 then str_int m @ ''m'' @ (if s = 0 then [] else '' '' @ str_int s @ ''s'')
        else if s \<noteq> 0 then str_int s @ ''s''
        else ''0s'')"

subsection \<open>Reading a yielded tuple\<close>

text \<open>
  Team B is ahead in a yielded tuple: its latest cumulative spice strictly exceeds
  team A's.
\<close>

definition b_ahead :: "emission \<Rightarrow> bool" where
  "b_ahead e \<longleftrightarrow> last (e_b_yield e) > last (e_a_yield e)"

subsection \<open>Example inputs\<close>

text \<open>
  The two default teams of the application (\<open>DEFAULT_TEAMS\<close> in constants.py), built as
  \<open>main\<close> builds them: pets without power and a manual speed; and a territory with a
  given forage.
\<close>

definition pet_of :: "string \<Rightarrow> Pet" where
  "pet_of gene = \<lparr>genetic = \<lparr>genetic_id = 0, genetic_name = gene\<rparr>, pet_power = None\<rparr>"

definition meta_team :: "real \<Rightarrow> Team" where
  "meta_team v =
     \<lparr>team_name = ''Meta Team'',
      pets = map pet_of [''Borger'', ''Miasma'', ''Forager'', ''Converter''],
      team_territory = None, manual_speed = Some v\<rparr>"

definition alchemic_team :: "real \<Rightarrow> Team" where
  "alchemic_team v =
     \<lparr>team_name = ''Alchemic Team'',
      pets = map pet_of [''Alchemic'', ''Alchemic'', ''Alchemic'', ''Converter''],
      team_territory = None, manual_speed = Some v\<rparr>"

text \<open>The same pets as the alchemic team, in another order.\<close>

definition shuffled_alchemic_team :: "real \<Rightarrow> Team" where
  "shuffled_alchemic_team v =
     \<lparr>team_name = ''Shuffled'',
      pets = map pet_of [''Converter'', ''Alchemic'', ''Alchemic'', ''Alchemic''],
      team_territory = None, manual_speed = Some v\<rparr>"

definition land :: "int \<Rightarrow> Territory" where
  "land f = \<lparr>territory_name = ''Grasslands'', forage = f, fight = 0\<rparr>"

subsection \<open>Auxiliary notions for the proofs\<close>

text \<open>
  The value of the requirement curve where no exception is raised, and with it the
  simulation's steps where nothing is raised: the requirement of a team's current cycle,
  its time to the next fill, the loop body for one team, the generator after a step of
  length \<open>dt\<close>, and one \<open>next()\<close>. The lemmas \<open>advance_ok\<close>, \<open>next_fill_time_ok\<close> and
  \<open>gen_next_ok\<close> relate them to the functions of the source; they hold when the
  monolithic counts are not negative (\<open>counts_ok\<close>), as they are by construction.
\<close>

definition bonus_of :: "int \<Rightarrow> real" where
  "bonus_of m = 1 + 0.02 / (of_int m / 5 + 1)"

definition requirement :: "real \<Rightarrow> int \<Rightarrow> int \<Rightarrow> real" where
  "requirement base n m = (base + of_int n) * (bonus_of m powi n)"

definition req_of :: "Territory \<Rightarrow> team_state \<Rightarrow> real" where
  "req_of terr s = requirement (of_int (forage terr)) (fills s) (monolithic s)"

definition fill_time :: "Territory \<Rightarrow> team_state \<Rightarrow> xfloat" where
  "fill_time terr s = (if speed s \<le> 0 then PInf else Fin ((req_of terr s - progress s) / speed s))"

definition adv :: "Territory \<Rightarrow> real \<Rightarrow> team_state \<Rightarrow> team_state" where
  "adv terr dt s =
     (if progress s + speed s * dt \<ge> req_of terr s
      then s\<lparr>fills := fills s + 1, spice := spice s + (1 + 0.5 * of_int (alchemic s)), progress := 0\<rparr>
      else s\<lparr>progress := progress s + speed s * dt\<rparr>)"

definition b_overtakes :: "generator \<Rightarrow> real \<Rightarrow> bool" where
  "b_overtakes g dt \<longleftrightarrow>
     breakeven g = None
     \<and> spice (adv (territory g) dt (state_b g)) > spice (adv (territory g) dt (state_a g))"

definition after :: "generator \<Rightarrow> real \<Rightarrow> generator" where
  "after g dt =
     (let a = adv (territory g) dt (state_a g);
          b = adv (territory g) dt (state_b g);
          t = t_now g + dt;
          g1 = g\<lparr>state_a := a, state_b := b, t_now := t,
                 timeline := timeline g @ [t],
                 a_yield := a_yield g @ [spice a],
                 b_yield := b_yield g @ [spice b]\<rparr>
      in if b_overtakes g dt
         then (if stop_at_breakeven g then g1\<lparr>breakeven := Some t, at_return := True\<rparr>
               else g1\<lparr>breakeven := Some t\<rparr>)
         else g1)"

definition step :: "generator \<Rightarrow> (emission \<times> generator) option" where
  "step g =
     (if at_return g \<or> \<not> t_now g \<le> of_int (max_hours g) then None
      else case xmin (fill_time (territory g) (state_a g)) (fill_time (territory g) (state_b g)) of
             PInf \<Rightarrow> None
           | Fin dt \<Rightarrow> if t_now g + dt > of_int (max_hours g) then None
                       else Some (emitted (after g dt), after g dt))"

definition counts_ok :: "generator \<Rightarrow> bool" where
  "counts_ok g \<longleftrightarrow> 0 \<le> monolithic (state_a g) \<and> 0 \<le> monolithic (state_b g)"

subsection \<open>Invariants of the simulation\<close>

text \<open>
  The yield histories are sorted and bounded by the current spice. A team that moves has
  at most reached the requirement of its current cycle (\<open>upto_req\<close>), and right after a
  step it is below it (\<open>below_req\<close>); the timeline is sorted and bounded by the current
  time.
\<close>

definition yields_inv :: "generator \<Rightarrow> bool" where
  "yields_inv g \<longleftrightarrow>
     0 \<le> alchemic (state_a g) \<and> 0 \<le> alchemic (state_b g)
     \<and> sorted (a_yield g) \<and> (\<forall>x \<in> set (a_yield g). x \<le> spice (state_a g))
     \<and> sorted (b_yield g) \<and> (\<forall>x \<in> set (b_yield g). x \<le> spice (state_b g))"

definition below_req :: "Territory \<Rightarrow> team_state \<Rightarrow> bool" where
  "below_req terr s \<longleftrightarrow> (0 < speed s \<longrightarrow> progress s < req_of terr s)"

definition upto_req :: "Territory \<Rightarrow> team_state \<Rightarrow> bool" where
  "upto_req terr s \<longleftrightarrow> (0 < speed s \<longrightarrow> progress s \<le> req_of terr s)"

definition timeline_inv :: "generator \<Rightarrow> bool" where
  "timeline_inv g \<longleftrightarrow>
     0 \<le> forage (territory g) \<and> 0 \<le> fills (state_a g) \<and> 0 \<le> fills (state_b g)
     \<and> upto_req (territory g) (state_a g) \<and> upto_req (territory g) (state_b g)
     \<and> (\<forall>x \<in> set (timeline g). x \<le> t_now g)
     \<and> sorted (timeline g)"

text \<open>The divisor and the bonus as the double-precision function computes them.\<close>

definition divisor64 :: "int \<Rightarrow> real" where
  "divisor64 m = rnd64 (rnd64 (of_int m / 5) + 1)"

definition bonus64 :: "int \<Rightarrow> real" where
  "bonus64 m = rnd64 (1 + rnd64 (rnd64 0.02 / divisor64 m))"

section \<open>Properties\<close>

subsection \<open>The requirement curve\<close>

lemma bonus_of_gt_1: "0 \<le> m \<Longrightarrow> 1 < bonus_of m"
  by (simp add: bonus_of_def)

lemma bonus_of_strict_anti: "0 \<le> m \<Longrightarrow> m < m' \<Longrightarrow> bonus_of m' < bonus_of m"
  by (simp add: bonus_of_def frac_less2)

lemma calculate_forage_requirement_nonneg:
  "0 \<le> m \<Longrightarrow> calculate_forage_requirement base n m = Inr (requirement base n m)"
proof -
  assume m: "0 \<le> m"
  have d: "real_of_int m / 5 + 1 \<noteq> 0" using m by (simp add: add_nonneg_eq_0_iff)
  have "bonus_of m \<noteq> 0" using bonus_of_gt_1 [OF m] by simp
  then show ?thesis using d
    by (simp add: calculate_forage_requirement_def requirement_def bonus_of_def Let_def)
qed

lemma requirement_strict_anti:
  assumes "0 \<le> base" "0 < n" "0 \<le> m" "m < m'"
  shows "requirement base n m' < requirement base n m"
proof -
  have b: "bonus_of m' < bonus_of m" "1 < bonus_of m'"
    using assms bonus_of_strict_anti bonus_of_gt_1 by auto
  have "bonus_of m' ^ nat n < bonus_of m ^ nat n"
    using b assms by (intro power_strict_mono) auto
  moreover have "0 < base + of_int n" using assms by simp
  ultimately show ?thesis using assms
    by (simp add: requirement_def power_int_def)
qed

lemma requirement_gt:
  assumes "0 \<le> base" "0 < n" "0 \<le> m"
  shows "base + of_int n < requirement base n m"
proof -
  have "1 < bonus_of m ^ nat n"
    using bonus_of_gt_1 [OF assms(3)] assms(2) by (intro one_less_power) auto
  moreover have "0 < base + of_int n" using assms by simp
  ultimately show ?thesis using assms
    by (simp add: requirement_def power_int_def)
qed

lemma bonus_of_tendsto: "(\<lambda>k::nat. bonus_of (int k)) \<longlonglongrightarrow> 1"
proof -
  have a: "LIM k sequentially. (1 / 5) * real k :> at_top"
    by (rule filterlim_tendsto_pos_mult_at_top [OF tendsto_const _ filterlim_real_sequentially]) simp
  have "LIM k sequentially. 1 + (1 / 5) * real k :> at_top"
    by (rule filterlim_tendsto_add_at_top [OF tendsto_const a])
  then have b: "LIM k sequentially. real k / 5 + 1 :> at_top"
    by (simp add: add.commute)
  have "(\<lambda>k::nat. 0.02 / (real k / 5 + 1)) \<longlonglongrightarrow> 0"
    by (rule real_tendsto_divide_at_top [OF tendsto_const b])
  then have "(\<lambda>k::nat. 1 + 0.02 / (real k / 5 + 1)) \<longlonglongrightarrow> 1 + 0"
    by (intro tendsto_add tendsto_const)
  then show ?thesis by (simp add: bonus_of_def)
qed

lemma requirement_tendsto:
  "0 \<le> n \<Longrightarrow> (\<lambda>k::nat. requirement base n (int k)) \<longlonglongrightarrow> base + of_int n"
proof -
  assume n: "0 \<le> n"
  have "(\<lambda>k::nat. (base + of_int n) * (bonus_of (int k) ^ nat n)) \<longlonglongrightarrow> (base + of_int n) * (1 ^ nat n)"
    by (intro tendsto_mult tendsto_const tendsto_power bonus_of_tendsto)
  then show ?thesis using n by (simp add: requirement_def power_int_def)
qed



text \<open>
  Over exact arithmetic: for every base \<open>\<ge> 0\<close> and cycle index \<open>n > 0\<close>, the formula is
  strictly decreasing in the monolithic count \<open>m \<ge> 0\<close>, stays strictly above
  \<open>base + n\<close>, and tends to \<open>base + n\<close> as the monolithic count grows. The
  double-precision function is treated at the end of this theory.
\<close>

theorem requirement_decreasing_in_monolithic:
  assumes "0 \<le> base" "0 < n" "0 \<le> m" "m < m'"
  shows "(\<exists>r r'. calculate_forage_requirement base n m = Inr r
            \<and> calculate_forage_requirement base n m' = Inr r'
            \<and> r' < r \<and> base + of_int n < r')
         \<and> (\<lambda>k::nat. projr (calculate_forage_requirement base n (int k))) \<longlonglongrightarrow> base + of_int n"
proof -
  have m': "0 \<le> m'" using assms by simp
  have "requirement base n m' < requirement base n m"
    using assms by (rule requirement_strict_anti)
  moreover have "base + of_int n < requirement base n m'"
    using assms(1,2) m' by (rule requirement_gt)
  moreover have "(\<lambda>k::nat. projr (calculate_forage_requirement base n (int k))) \<longlonglongrightarrow> base + of_int n"
    using requirement_tendsto [of n base] assms(2)
    by (simp add: calculate_forage_requirement_nonneg)
  ultimately show ?thesis
    using assms(3) m' by (simp add: calculate_forage_requirement_nonneg)
qed

theorem requirement_decreasing_in_monolithic_witness:
  "(\<exists>r r'. calculate_forage_requirement 100 2 0 = Inr r
            \<and> calculate_forage_requirement 100 2 5 = Inr r'
            \<and> r' < r \<and> 100 + of_int 2 < r')
   \<and> calculate_forage_requirement 100 2 0 = Inr 106.1208
   \<and> calculate_forage_requirement 100 2 5 = Inr 104.0502"
proof -
  have "calculate_forage_requirement 100 2 0 = Inr 106.1208"
    by (simp add: calculate_forage_requirement_def Let_def power2_eq_square)
  moreover have "calculate_forage_requirement 100 2 5 = Inr 104.0502"
    by (simp add: calculate_forage_requirement_def Let_def power2_eq_square)
  ultimately show ?thesis
    using requirement_decreasing_in_monolithic [of 100 2 0 5] by simp
qed

subsection \<open>Formatting\<close>

lemma digit_char_in: "d < 10 \<Longrightarrow> digit_char d \<in> set ''0123456789''"
proof -
  assume "d < 10"
  then have "d \<in> {0,1,2,3,4,5,6,7,8,9}" by auto
  then show ?thesis by (auto simp: digit_char_def)
qed

lemma str_digits_chars: "0 \<le> i \<Longrightarrow> set (str_digits i) \<subseteq> set ''0123456789''"
proof (induction i rule: str_digits.induct)
  case (1 i)
  show ?case
  proof (cases "i < 10")
    case True
    then have "nat i < 10" by simp
    then have "digit_char (nat i) \<in> set ''0123456789''" by (rule digit_char_in)
    then show ?thesis using True by (subst str_digits.simps) simp
  next
    case False
    have "nat (i mod 10) < 10" by simp
    then have d: "digit_char (nat (i mod 10)) \<in> set ''0123456789''" by (rule digit_char_in)
    have "0 \<le> i div 10" using False by simp
    then have "set (str_digits (i div 10)) \<subseteq> set ''0123456789''" using 1 False by simp
    then show ?thesis using False d by (subst str_digits.simps) simp
  qed
qed

lemma str_int_chars: "set (str_int i) \<subseteq> set ''-0123456789''"
proof (cases "i < 0")
  case True
  then have e: "str_int i = CHR ''-'' # str_digits (- i)" by (simp add: str_int_def)
  have "set (str_digits (- i)) \<subseteq> set ''0123456789''"
    using True by (intro str_digits_chars) simp
  then have "insert CHR ''-'' (set (str_digits (- i))) \<subseteq> insert CHR ''-'' (set ''0123456789'')"
    by (rule insert_mono)
  then show ?thesis unfolding e by (simp only: list.set)
next
  case False
  then have e: "str_int i = str_digits i" by (simp add: str_int_def)
  have "set (str_digits i) \<subseteq> set ''0123456789''"
    using False by (intro str_digits_chars) simp
  also have "\<dots> \<subseteq> set (CHR ''-'' # ''0123456789'')" by (rule set_subset_Cons)
  finally show ?thesis unfolding e .
qed

lemma format_number_below_thresholds: "x < 1000 \<Longrightarrow> format_number x = str_int (py_int x)"
  by (simp add: format_number_def thresholds_def)

lemma ceiling_toward_zero:
  "x < 0 \<Longrightarrow> \<bar>of_int \<lceil>x\<rceil>\<bar> \<le> \<bar>x::real\<bar> \<and> \<bar>x\<bar> - \<bar>of_int \<lceil>x\<rceil>\<bar> < 1"
proof -
  assume x: "x < 0"
  have a: "x \<le> of_int \<lceil>x\<rceil>" by (rule le_of_int_ceiling)
  have b: "of_int \<lceil>x\<rceil> < x + 1" by linarith
  have "\<lceil>x\<rceil> \<le> 0" using x by (simp add: ceiling_le_zero)
  then have c: "real_of_int \<lceil>x\<rceil> \<le> 0" by simp
  show ?thesis using x a b c by linarith
qed

text \<open>
  C10. \<open>format_number\<close> compares the signed value with the thresholds: for every
  negative input, however large its magnitude, no threshold matches and the result is
  \<open>str(int(x))\<close>, the integer obtained by truncating toward zero, written with a sign
  and digits only (no suffix, no exponent).
\<close>

theorem format_number_negative:
  assumes "x < 0"
  shows "format_number x = str_int (py_int x)
         \<and> \<bar>of_int (py_int x)\<bar> \<le> \<bar>x\<bar> \<and> \<bar>x\<bar> - \<bar>of_int (py_int x)\<bar> < 1
         \<and> set (format_number x) \<subseteq> set ''-0123456789''"
proof -
  have 1: "format_number x = str_int (py_int x)"
    using assms by (simp add: format_number_below_thresholds)
  have 2: "py_int x = \<lceil>x\<rceil>" using assms by (simp add: py_int_def)
  have 3: "set (format_number x) \<subseteq> set ''-0123456789''"
    unfolding 1 by (rule str_int_chars)
  show ?thesis using 1 ceiling_toward_zero [OF assms] 3
    unfolding 2 by (intro conjI) (rule TrueI | assumption | erule conjunct1 | erule conjunct2)+
qed

theorem format_number_negative_witness:
  "format_number (- 2500000) = str_int (py_int (- 2500000))
   \<and> format_number (- 2500000) = ''-2500000''"
proof -
  have neg: "(- 2500000 :: real) < 0" by simp
  have "format_number (- 2500000) = str_int (py_int (- 2500000))"
    using format_number_negative [OF neg] by (rule conjunct1)
  moreover have "format_number (- 2500000) = ''-2500000''" by code_simp
  ultimately show ?thesis by (rule conjI)
qed

lemma py_round_nearest: "\<bar>of_int (py_round x) - x\<bar> \<le> 1 / 2"
proof -
  have "of_int \<lfloor>x\<rfloor> \<le> x" "x < of_int \<lfloor>x\<rfloor> + 1" by linarith+
  then show ?thesis unfolding py_round_def Let_def by (simp split: if_splits)
qed

lemma format_time_render:
  "format_time hours = spec_render_hms (spec_hms (py_round (hours * 3600)))"
  unfolding format_time_def spec_render_hms_def spec_hms_def divmod_def Let_def prod.case
  by simp

text \<open>
  C9. \<open>format_time\<close> rounds \<open>hours * 3600\<close> to a nearest integer number of seconds,
  decomposes it into hours, minutes and seconds and renders it as the specification
  says; \<open>format_time(1.5)\<close> is \<open>"1h 30m"\<close>, \<open>format_time(0.0167)\<close> is \<open>"1m"\<close> and
  \<open>format_time(0.0)\<close> is \<open>"0s"\<close>.
\<close>

theorem format_time_spec:
  "format_time hours = spec_render_hms (spec_hms (py_round (hours * 3600)))
   \<and> \<bar>of_int (py_round (hours * 3600)) - hours * 3600\<bar> \<le> 1 / 2
   \<and> format_time 1.5 = ''1h 30m''
   \<and> format_time 0.0167 = ''1m''
   \<and> format_time 0.0 = ''0s''"
proof -
  have a: "format_time 1.5 = ''1h 30m''" by code_simp
  have b: "format_time 0.0167 = ''1m''" by code_simp
  have c: "format_time 0.0 = ''0s''" by code_simp
  show ?thesis
    by (intro conjI format_time_render py_round_nearest a b c)
qed

subsection \<open>The generator raises nothing\<close>

lemma advance_ok: "0 \<le> monolithic s \<Longrightarrow> advance terr dt s = Inr (adv terr dt s)"
  by (simp add: advance_def adv_def req_of_def calculate_forage_requirement_nonneg Let_def)

lemma next_fill_time_ok: "0 \<le> monolithic s \<Longrightarrow> next_fill_time terr s = Inr (fill_time terr s)"
  by (simp add: next_fill_time_def fill_time_def req_of_def calculate_forage_requirement_nonneg)

lemma gen_next_ok: "counts_ok g \<Longrightarrow> gen_next g = Inr (step g)"
  unfolding counts_ok_def gen_next_def step_def
  by (auto simp add: advance_ok next_fill_time_ok after_def b_overtakes_def emitted_def Let_def
        split: xfloat.split)

lemma monolithic_adv [simp]: "monolithic (adv terr dt s) = monolithic s"
  by (simp add: adv_def)

lemma alchemic_adv [simp]: "alchemic (adv terr dt s) = alchemic s"
  by (simp add: adv_def)

lemma speed_adv [simp]: "speed (adv terr dt s) = speed s"
  by (simp add: adv_def)

lemma after_simps [simp]:
  "territory (after g dt) = territory g"
  "max_hours (after g dt) = max_hours g"
  "stop_at_breakeven (after g dt) = stop_at_breakeven g"
  "state_a (after g dt) = adv (territory g) dt (state_a g)"
  "state_b (after g dt) = adv (territory g) dt (state_b g)"
  "t_now (after g dt) = t_now g + dt"
  "timeline (after g dt) = timeline g @ [t_now g + dt]"
  "a_yield (after g dt) = a_yield g @ [spice (adv (territory g) dt (state_a g))]"
  "b_yield (after g dt) = b_yield g @ [spice (adv (territory g) dt (state_b g))]"
  "breakeven (after g dt) = (if b_overtakes g dt then Some (t_now g + dt) else breakeven g)"
  "at_return (after g dt) = (if b_overtakes g dt \<and> stop_at_breakeven g then True else at_return g)"
  by (simp_all add: after_def Let_def)

lemma counts_ok_after: "counts_ok g \<Longrightarrow> counts_ok (after g dt)"
  by (simp add: counts_ok_def)

lemma step_SomeD:
  assumes "step g = Some (e, g')"
  obtains dt where "g' = after g dt" "e = emitted g'" "\<not> at_return g"
    "t_now g \<le> of_int (max_hours g)" "t_now g + dt \<le> of_int (max_hours g)"
    "xmin (fill_time (territory g) (state_a g)) (fill_time (territory g) (state_b g)) = Fin dt"
  using assms unfolding step_def
  by (auto split: if_splits xfloat.splits)

lemma count_genetic_nonneg: "0 \<le> count_genetic team name"
  unfolding count_genetic_def by (rule sum_list_nonneg) auto

lemma counts_ok_init: "counts_ok (simulate_progressive terr ta tb la lb mh stop)"
  by (simp add: counts_ok_def simulate_progressive_def init_state_def count_genetic_nonneg)

lemma pull_step:
  "counts_ok g \<Longrightarrow>
   pull (Suc n) g = (case step g of None \<Rightarrow> ([], Exhausted)
                     | Some (e, g') \<Rightarrow> (e # fst (pull n g'), snd (pull n g')))"
  by (simp add: gen_next_ok split: option.split prod.split)

lemma pull_never_raises: "counts_ok g \<Longrightarrow> snd (pull n g) \<noteq> Raised err"
proof (induction n arbitrary: g)
  case 0
  then show ?case by simp
next
  case (Suc n)
  show ?case
  proof (cases "step g")
    case None
    then show ?thesis using Suc.prems by (simp add: pull_step del: pull.simps(2))
  next
    case (Some p)
    obtain e g' where p: "p = (e, g')" by (cases p)
    from Some p obtain dt where "g' = after g dt" by (auto elim: step_SomeD)
    then have "counts_ok g'" using Suc.prems by (simp add: counts_ok_after)
    then show ?thesis using Suc.IH Some p Suc.prems by (simp add: pull_step del: pull.simps(2))
  qed
qed

lemma pull_emitted_invariant:
  assumes "counts_ok g" "I g"
    and step: "\<And>g dt. counts_ok g \<Longrightarrow> I g \<Longrightarrow> step g = Some (emitted (after g dt), after g dt)
                 \<Longrightarrow> I (after g dt) \<and> Q (emitted (after g dt))"
  shows "\<forall>e \<in> set (fst (pull n g)). Q e"
  using assms(1,2)
proof (induction n arbitrary: g)
  case 0
  then show ?case by simp
next
  case (Suc n)
  show ?case
  proof (cases "step g")
    case None
    then show ?thesis using Suc.prems by (simp add: pull_step del: pull.simps(2))
  next
    case (Some p)
    obtain e g' where p: "p = (e, g')" by (cases p)
    from Some p obtain dt where g': "g' = after g dt" "e = emitted g'" by (auto elim: step_SomeD)
    have "I g' \<and> Q e" using step [of g dt] Suc.prems Some p g' by simp
    moreover have "counts_ok g'" using Suc.prems g' by (simp add: counts_ok_after)
    ultimately show ?thesis using Suc.IH [of g'] Some p Suc.prems by (simp add: pull_step del: pull.simps(2))
  qed
qed

subsection \<open>Teams that do not move\<close>

lemma fill_time_PInf: "speed s \<le> 0 \<Longrightarrow> fill_time terr s = PInf"
  by (simp add: fill_time_def)

text \<open>
  C2, as the code has it. When both teams have a speed \<open>\<le> 0\<close>, the time to the next fill
  is infinite for both, the first \<open>next()\<close> breaks out of the loop, and the generator is
  exhausted without an error and without having yielded anything: the initial zero state
  is not yielded on its own.
\<close>

theorem zero_speed_yields_nothing:
  assumes "Team_speed team_a \<le> 0" "Team_speed team_b \<le> 0"
  shows "gen_next (simulate_progressive terr team_a team_b label_a label_b mh stop) = Inr None
         \<and> pull (Suc n) (simulate_progressive terr team_a team_b label_a label_b mh stop) = ([], Exhausted)"
proof -
  let ?g = "simulate_progressive terr team_a team_b label_a label_b mh stop"
  have ok: "counts_ok ?g" by (rule counts_ok_init)
  have "speed (state_a ?g) \<le> 0" "speed (state_b ?g) \<le> 0"
    using assms by (simp_all add: simulate_progressive_def init_state_def)
  then have "step ?g = None"
    by (simp add: step_def fill_time_PInf)
  then show ?thesis using ok by (simp add: gen_next_ok)
qed

theorem zero_speed_yields_nothing_witness:
  "gen_next (simulate_progressive (land 100) (meta_team 0) (alchemic_team 0) ''Non-Alchemic'' ''Alchemic'' 48 True) = Inr None
   \<and> pull (Suc 1) (simulate_progressive (land 100) (meta_team 0) (alchemic_team 0) ''Non-Alchemic'' ''Alchemic'' 48 True) = ([], Exhausted)"
proof -
  have "Team_speed (meta_team 0) \<le> 0" "Team_speed (alchemic_team 0) \<le> 0"
    by (simp_all add: Team_speed_def meta_team_def alchemic_team_def)
  then show ?thesis by (rule zero_speed_yields_nothing)
qed

theorem zero_speed_counterexample:
  "Team_speed (meta_team 0) = 0 \<and> Team_speed (alchemic_team 0) = 0
   \<and> fst (pull 2 (simulate_progressive (land 100) (meta_team 0) (alchemic_team 0) ''Non-Alchemic'' ''Alchemic'' 48 True))
       \<noteq> [([0], [0], [0], None)]
   \<and> length (fst (pull 2 (simulate_progressive (land 100) (meta_team 0) (alchemic_team 0) ''Non-Alchemic'' ''Alchemic'' 48 True))) = 0"
  by code_simp

subsection \<open>The time budget\<close>

lemma timeline_bounded_step:
  assumes "max_hours g = mh \<and> (\<forall>x \<in> set (timeline g). x \<le> of_int mh \<or> x = t_now g)"
    and "step g = Some (emitted (after g dt), after g dt)"
  shows "(max_hours (after g dt) = mh \<and> (\<forall>x \<in> set (timeline (after g dt)). x \<le> of_int mh \<or> x = t_now (after g dt)))
         \<and> (\<forall>x \<in> set (e_timeline (emitted (after g dt))). x \<le> of_int mh)"
proof -
  obtain dt' where d: "after g dt = after g dt'" "t_now g \<le> of_int (max_hours g)"
    "t_now g + dt' \<le> of_int (max_hours g)"
    using assms(2) by (auto elim: step_SomeD)
  have "t_now (after g dt) = t_now (after g dt')" using d(1) by simp
  then have "dt = dt'" by simp
  then show ?thesis using assms(1) d by (auto simp: e_timeline_def emitted_def)
qed

lemma overshoot_discarded:
  assumes "next_fill_time (territory g) (state_a g) = Inr fa"
    "next_fill_time (territory g) (state_b g) = Inr fb"
    "xmin fa fb = Fin dt" "t_now g + dt > of_int (max_hours g)"
  shows "gen_next g = Inr None"
  using assms by (simp add: gen_next_def)

text \<open>
  C5. Every time in every timeline yielded by \<open>simulate_progressive\<close> is at most
  \<open>max_hours\<close>; a step whose advanced time exceeds \<open>max_hours\<close> ends the generator and
  is not yielded.
\<close>

theorem timeline_within_budget:
  "(\<forall>e \<in> set (fst (pull n (simulate_progressive terr team_a team_b label_a label_b mh stop))).
      \<forall>x \<in> set (e_timeline e). x \<le> of_int mh)
   \<and> (\<forall>g fa fb dt. next_fill_time (territory g) (state_a g) = Inr fa
          \<and> next_fill_time (territory g) (state_b g) = Inr fb
          \<and> xmin fa fb = Fin dt \<and> t_now g + dt > of_int (max_hours g)
        \<longrightarrow> gen_next g = Inr None)"
proof -
  let ?g = "simulate_progressive terr team_a team_b label_a label_b mh stop"
  have "\<forall>e \<in> set (fst (pull n ?g)). \<forall>x \<in> set (e_timeline e). x \<le> of_int mh"
  proof (rule pull_emitted_invariant
      [where I = "\<lambda>g. max_hours g = mh \<and> (\<forall>x \<in> set (timeline g). x \<le> of_int mh \<or> x = t_now g)"])
    show "counts_ok ?g" by (rule counts_ok_init)
    show "max_hours ?g = mh \<and> (\<forall>x \<in> set (timeline ?g). x \<le> of_int mh \<or> x = t_now ?g)"
      by (simp add: simulate_progressive_def)
  qed (rule timeline_bounded_step)
  then show ?thesis using overshoot_discarded by blast
qed


theorem timeline_within_budget_witness:
  "fst (pull 3 (simulate_progressive (land 100) (meta_team 10) (alchemic_team 8) ''Non-Alchemic'' ''Alchemic'' 48 False))
     = [([0, 10], [0, 1], [0, 0], None),
        ([0, 10, 12.5], [0, 1, 1], [0, 0, 2.5], Some 12.5),
        ([0, 10, 12.5, 20.302], [0, 1, 1, 2], [0, 0, 2.5, 2.5], Some 12.5)]
   \<and> list_all (\<lambda>e. list_all (\<lambda>x. x \<le> of_int 48) (e_timeline e))
        (fst (pull 3 (simulate_progressive (land 100) (meta_team 10) (alchemic_team 8) ''Non-Alchemic'' ''Alchemic'' 48 False)))
   \<and> next_fill_time (territory (simulate_progressive (land 100) (meta_team 10) (alchemic_team 8) ''Non-Alchemic'' ''Alchemic'' 9 True))
        (state_a (simulate_progressive (land 100) (meta_team 10) (alchemic_team 8) ''Non-Alchemic'' ''Alchemic'' 9 True)) = Inr (Fin 10)
   \<and> next_fill_time (territory (simulate_progressive (land 100) (meta_team 10) (alchemic_team 8) ''Non-Alchemic'' ''Alchemic'' 9 True))
        (state_b (simulate_progressive (land 100) (meta_team 10) (alchemic_team 8) ''Non-Alchemic'' ''Alchemic'' 9 True)) = Inr (Fin 12.5)
   \<and> gen_next (simulate_progressive (land 100) (meta_team 10) (alchemic_team 8) ''Non-Alchemic'' ''Alchemic'' 9 True) = Inr None"
proof -
  let ?g = "(simulate_progressive (land 100) (meta_team 10) (alchemic_team 8) ''Non-Alchemic'' ''Alchemic'' 9 True)"
  note T = timeline_within_budget [of 3 "land 100" "meta_team 10" "alchemic_team 8" "''Non-Alchemic''" "''Alchemic''" 48 False]
  have ev: "fst (pull 3 (simulate_progressive (land 100) (meta_team 10) (alchemic_team 8) ''Non-Alchemic'' ''Alchemic'' 48 False))
     = [([0, 10], [0, 1], [0, 0], None),
        ([0, 10, 12.5], [0, 1, 1], [0, 0, 2.5], Some 12.5),
        ([0, 10, 12.5, 20.302], [0, 1, 1, 2], [0, 0, 2.5, 2.5], Some 12.5)]"
    by code_simp
  have bounded: "list_all (\<lambda>e. list_all (\<lambda>x. x \<le> of_int 48) (e_timeline e))
        (fst (pull 3 (simulate_progressive (land 100) (meta_team 10) (alchemic_team 8) ''Non-Alchemic'' ''Alchemic'' 48 False)))"
    using T unfolding list_all_iff by blast
  have a: "next_fill_time (territory ?g) (state_a ?g) = Inr (Fin 10)" by code_simp
  have b: "next_fill_time (territory ?g) (state_b ?g) = Inr (Fin 12.5)" by code_simp
  have c: "xmin (Fin 10) (Fin 12.5) = Fin 10" by simp
  have d: "t_now ?g + 10 > of_int (max_hours ?g)" by (simp add: simulate_progressive_def)
  have over: "gen_next ?g = Inr None" using T a b c d by blast
  show ?thesis using ev bounded a b over by (intro conjI)
qed

subsection \<open>What the yielded tuples start with\<close>

lemma initial_entries_step:
  assumes "timeline g \<noteq> [] \<and> hd (timeline g) = 0 \<and> hd (a_yield g) = 0 \<and> hd (b_yield g) = 0
           \<and> length (a_yield g) = length (timeline g) \<and> length (b_yield g) = length (timeline g)"
  shows "(timeline (after g dt) \<noteq> [] \<and> hd (timeline (after g dt)) = 0
          \<and> hd (a_yield (after g dt)) = 0 \<and> hd (b_yield (after g dt)) = 0
          \<and> length (a_yield (after g dt)) = length (timeline (after g dt))
          \<and> length (b_yield (after g dt)) = length (timeline (after g dt)))
         \<and> (e_timeline (emitted (after g dt)) ! 0 = 0 \<and> e_a_yield (emitted (after g dt)) ! 0 = 0
            \<and> e_b_yield (emitted (after g dt)) ! 0 = 0
            \<and> 2 \<le> length (e_timeline (emitted (after g dt)))
            \<and> length (e_a_yield (emitted (after g dt))) = length (e_timeline (emitted (after g dt)))
            \<and> length (e_b_yield (emitted (after g dt))) = length (e_timeline (emitted (after g dt))))"
proof -
  from assms have ne: "timeline g \<noteq> []" "a_yield g \<noteq> []" "b_yield g \<noteq> []" by auto
  then have len: "Suc 0 \<le> length (timeline g)" by (cases "timeline g") simp_all
  show ?thesis using assms ne len
    by (simp add: e_timeline_def e_a_yield_def e_b_yield_def emitted_def hd_append nth_append
        hd_conv_nth)
qed

text \<open>
  C1, as the code has it. Every tuple yielded by \<open>simulate_progressive\<close> has
  \<open>timeline[0] = 0\<close>, \<open>team_a_yield[0] = 0\<close> and \<open>team_b_yield[0] = 0\<close>, and its three
  lists have one common length of at least two: a tuple is yielded only after a step
  has been appended. (The sequence can be empty, and the first tuple can already carry a
  breakeven: see the counterexample.)
\<close>

theorem yielded_lists_start_at_zero:
  "\<forall>e \<in> set (fst (pull n (simulate_progressive terr team_a team_b label_a label_b mh stop))).
      e_timeline e ! 0 = 0 \<and> e_a_yield e ! 0 = 0 \<and> e_b_yield e ! 0 = 0
      \<and> 2 \<le> length (e_timeline e)
      \<and> length (e_a_yield e) = length (e_timeline e)
      \<and> length (e_b_yield e) = length (e_timeline e)"
proof (rule pull_emitted_invariant
    [where I = "\<lambda>g. timeline g \<noteq> [] \<and> hd (timeline g) = 0 \<and> hd (a_yield g) = 0 \<and> hd (b_yield g) = 0
           \<and> length (a_yield g) = length (timeline g) \<and> length (b_yield g) = length (timeline g)"])
  let ?g = "simulate_progressive terr team_a team_b label_a label_b mh stop"
  show "counts_ok ?g" by (rule counts_ok_init)
  show "timeline ?g \<noteq> [] \<and> hd (timeline ?g) = 0 \<and> hd (a_yield ?g) = 0 \<and> hd (b_yield ?g) = 0
           \<and> length (a_yield ?g) = length (timeline ?g) \<and> length (b_yield ?g) = length (timeline ?g)"
    by (simp add: simulate_progressive_def)
qed (rule initial_entries_step)

theorem yielded_lists_start_at_zero_witness:
  "fst (pull 2 (simulate_progressive (land 100) (meta_team 10) (alchemic_team 8) ''Non-Alchemic'' ''Alchemic'' 48 True))
     = [([0, 10], [0, 1], [0, 0], None), ([0, 10, 12.5], [0, 1, 1], [0, 0, 2.5], Some 12.5)]
   \<and> list_all (\<lambda>e. e_timeline e ! 0 = 0 \<and> e_a_yield e ! 0 = 0 \<and> e_b_yield e ! 0 = 0
          \<and> 2 \<le> length (e_timeline e)
          \<and> length (e_a_yield e) = length (e_timeline e)
          \<and> length (e_b_yield e) = length (e_timeline e))
        (fst (pull 2 (simulate_progressive (land 100) (meta_team 10) (alchemic_team 8) ''Non-Alchemic'' ''Alchemic'' 48 True)))"
proof -
  have "fst (pull 2 (simulate_progressive (land 100) (meta_team 10) (alchemic_team 8) ''Non-Alchemic'' ''Alchemic'' 48 True))
     = [([0, 10], [0, 1], [0, 0], None), ([0, 10, 12.5], [0, 1, 1], [0, 0, 2.5], Some 12.5)]"
    by code_simp
  moreover have "list_all (\<lambda>e. e_timeline e ! 0 = 0 \<and> e_a_yield e ! 0 = 0 \<and> e_b_yield e ! 0 = 0
          \<and> 2 \<le> length (e_timeline e)
          \<and> length (e_a_yield e) = length (e_timeline e)
          \<and> length (e_b_yield e) = length (e_timeline e))
        (fst (pull 2 (simulate_progressive (land 100) (meta_team 10) (alchemic_team 8) ''Non-Alchemic'' ''Alchemic'' 48 True)))"
    using yielded_lists_start_at_zero [of 2 "land 100" "meta_team 10" "alchemic_team 8" "''Non-Alchemic''" "''Alchemic''" 48 True]
    unfolding list_all_iff by blast
  ultimately show ?thesis by (rule conjI)
qed

theorem initial_snapshot_counterexample:
  "Team_post_init (meta_team 10) = Inr () \<and> Team_post_init (alchemic_team 8) = Inr ()
   \<and> Team_post_init (meta_team 8) = Inr () \<and> Team_post_init (alchemic_team 10) = Inr ()
   \<and> fst (pull 1 (simulate_progressive (land 100) (meta_team 10) (alchemic_team 8) ''Non-Alchemic'' ''Alchemic'' 9 True)) = []
   \<and> fst (pull 1 (simulate_progressive (land 100) (meta_team 8) (alchemic_team 10) ''Non-Alchemic'' ''Alchemic'' 48 True))
        = [([0, 10], [0, 0], [0, 2.5], Some 10)]"
  by code_simp

subsection \<open>Two equal teams\<close>

lemma foldl_bump_count:
  "(case foldl bump_count m ps name of None \<Rightarrow> 0 | Some c \<Rightarrow> c)
     = (case m name of None \<Rightarrow> 0 | Some c \<Rightarrow> c)
       + sum_list (map (\<lambda>pet. 1) (filter (\<lambda>pet. genetic_name (genetic pet) = name) ps))"
  by (induction ps arbitrary: m) (simp_all add: bump_count_def Let_def)

lemma count_genetic_genetics_counts:
  "count_genetic team name = (case Team_genetics_counts team name of None \<Rightarrow> 0 | Some c \<Rightarrow> c)"
  by (simp add: count_genetic_def Team_genetics_counts_def foldl_bump_count)

lemma equal_teams_step:
  assumes "state_a g = state_b g \<and> a_yield g = b_yield g \<and> breakeven g = None"
  shows "(state_a (after g dt) = state_b (after g dt) \<and> a_yield (after g dt) = b_yield (after g dt)
          \<and> breakeven (after g dt) = None)
         \<and> (e_a_yield (emitted (after g dt)) = e_b_yield (emitted (after g dt))
            \<and> e_breakeven (emitted (after g dt)) = None)"
  using assms by (simp add: b_overtakes_def e_a_yield_def e_b_yield_def e_breakeven_def emitted_def)

text \<open>
  C6. For two teams of equal speed and equal genetic composition (equal
  \<open>genetics_counts\<close>), every yielded tuple has \<open>team_a_yield = team_b_yield\<close>, index by
  index, and its breakeven is \<open>None\<close>.
\<close>

theorem equal_teams_never_break_even:
  assumes "Team_speed team_a = Team_speed team_b"
    and "Team_genetics_counts team_a = Team_genetics_counts team_b"
  shows "\<forall>e \<in> set (fst (pull n (simulate_progressive terr team_a team_b label_a label_b mh stop))).
           e_a_yield e = e_b_yield e \<and> e_breakeven e = None"
proof (rule pull_emitted_invariant
    [where I = "\<lambda>g. state_a g = state_b g \<and> a_yield g = b_yield g \<and> breakeven g = None"])
  let ?g = "simulate_progressive terr team_a team_b label_a label_b mh stop"
  show "counts_ok ?g" by (rule counts_ok_init)
  show "state_a ?g = state_b ?g \<and> a_yield ?g = b_yield ?g \<and> breakeven ?g = None"
    using assms by (simp add: simulate_progressive_def init_state_def count_genetic_genetics_counts)
qed (rule equal_teams_step)


lemma shuffled_counts:
  "Team_genetics_counts (alchemic_team v) = Team_genetics_counts (shuffled_alchemic_team w)"
  by (rule ext) (simp add: Team_genetics_counts_def alchemic_team_def shuffled_alchemic_team_def
      bump_count_def pet_of_def Let_def)

theorem equal_teams_never_break_even_witness:
  "Team_speed (alchemic_team 8) \<noteq> 0
   \<and> fst (pull 2 (simulate_progressive (land 100) (alchemic_team 8) (shuffled_alchemic_team 8) ''Non-Alchemic'' ''Alchemic'' 48 True))
     = [([0, 12.5], [0, 2.5], [0, 2.5], None), ([0, 12.5, 25.3775], [0, 2.5, 5], [0, 2.5, 5], None)]
   \<and> list_all (\<lambda>e. e_a_yield e = e_b_yield e \<and> e_breakeven e = None)
        (fst (pull 2 (simulate_progressive (land 100) (alchemic_team 8) (shuffled_alchemic_team 8) ''Non-Alchemic'' ''Alchemic'' 48 True)))"
proof -
  have s: "Team_speed (alchemic_team 8) = Team_speed (shuffled_alchemic_team 8)"
    by (simp add: Team_speed_def alchemic_team_def shuffled_alchemic_team_def)
  have "Team_speed (alchemic_team 8) \<noteq> 0"
    by (simp add: Team_speed_def alchemic_team_def)
  moreover have "fst (pull 2 (simulate_progressive (land 100) (alchemic_team 8) (shuffled_alchemic_team 8) ''Non-Alchemic'' ''Alchemic'' 48 True))
     = [([0, 12.5], [0, 2.5], [0, 2.5], None), ([0, 12.5, 25.3775], [0, 2.5, 5], [0, 2.5, 5], None)]"
    by code_simp
  moreover have "list_all (\<lambda>e. e_a_yield e = e_b_yield e \<and> e_breakeven e = None)
        (fst (pull 2 (simulate_progressive (land 100) (alchemic_team 8) (shuffled_alchemic_team 8) ''Non-Alchemic'' ''Alchemic'' 48 True)))"
    using equal_teams_never_break_even [OF s shuffled_counts, of 2 "land 100" "''Non-Alchemic''" "''Alchemic''" 48 True]
    unfolding list_all_iff by blast
  ultimately show ?thesis by (intro conjI)
qed

subsection \<open>Monotone histories\<close>

lemma step_afterD:
  assumes "step g = Some (e, after g dt)"
  shows "xmin (fill_time (territory g) (state_a g)) (fill_time (territory g) (state_b g)) = Fin dt"
proof -
  obtain dt' where d: "after g dt = after g dt'"
    "xmin (fill_time (territory g) (state_a g)) (fill_time (territory g) (state_b g)) = Fin dt'"
    using assms by (auto elim: step_SomeD)
  have "t_now (after g dt) = t_now (after g dt')" using d(1) by simp
  then have "dt = dt'" by simp
  then show ?thesis using d(2) by simp
qed

lemma spice_adv_mono: "0 \<le> alchemic s \<Longrightarrow> spice s \<le> spice (adv terr dt s)"
  by (simp add: adv_def)

lemma yields_inv_step:
  assumes "yields_inv g"
  shows "yields_inv (after g dt)
         \<and> (sorted (e_a_yield (emitted (after g dt))) \<and> sorted (e_b_yield (emitted (after g dt))))"
proof -
  have a: "spice (state_a g) \<le> spice (adv (territory g) dt (state_a g))"
    and b: "spice (state_b g) \<le> spice (adv (territory g) dt (state_b g))"
    using assms by (simp_all add: yields_inv_def spice_adv_mono)
  have "\<forall>x \<in> set (a_yield g). x \<le> spice (adv (territory g) dt (state_a g))"
    using assms a by (auto simp: yields_inv_def)
  moreover have "\<forall>x \<in> set (b_yield g). x \<le> spice (adv (territory g) dt (state_b g))"
    using assms b by (auto simp: yields_inv_def)
  ultimately show ?thesis using assms
    by (simp add: yields_inv_def sorted_append e_a_yield_def e_b_yield_def emitted_def)
qed

lemma yields_inv_init: "yields_inv (simulate_progressive terr ta tb la lb mh stop)"
  by (simp add: yields_inv_def simulate_progressive_def init_state_def count_genetic_nonneg)

lemma requirement_pos:
  assumes "0 \<le> m" "0 < base + of_int n"
  shows "0 < requirement base n m"
proof -
  have "0 < bonus_of m" using bonus_of_gt_1 [OF assms(1)] by simp
  then have "0 < bonus_of m powi n" by (rule zero_less_power_int)
  then show ?thesis using assms(2) by (simp add: requirement_def)
qed

lemma below_req_adv:
  assumes "0 \<le> forage terr" "0 \<le> fills s" "0 \<le> monolithic s"
  shows "below_req terr (adv terr dt s)"
proof (cases "progress s + speed s * dt \<ge> req_of terr s")
  case True
  have "0 < real_of_int (forage terr) + of_int (fills s + 1)" using assms by simp
  then have "0 < requirement (of_int (forage terr)) (fills s + 1) (monolithic s)"
    using assms(3) by (intro requirement_pos)
  then show ?thesis using True by (simp add: below_req_def adv_def req_of_def)
next
  case False
  then show ?thesis by (simp add: below_req_def adv_def req_of_def)
qed

lemma fills_adv: "0 \<le> fills s \<Longrightarrow> 0 \<le> fills (adv terr dt s)"
  by (simp add: adv_def)

lemma fill_time_nonneg: "upto_req terr s \<Longrightarrow> fill_time terr s = Fin d \<Longrightarrow> 0 \<le> d"
  by (auto simp: upto_req_def fill_time_def split: if_splits)

lemma xmin_FinD: "xmin fa fb = Fin dt \<Longrightarrow> fa = Fin dt \<or> fb = Fin dt"
  by (cases fa; cases fb) (auto split: if_splits)

lemma below_imp_upto: "below_req terr s \<Longrightarrow> upto_req terr s"
  by (auto simp: below_req_def upto_req_def)


lemma timeline_inv_step:
  assumes ok: "counts_ok g" and inv: "timeline_inv g"
    and st: "step g = Some (emitted (after g dt), after g dt)"
  shows "timeline_inv (after g dt) \<and> sorted (e_timeline (emitted (after g dt)))"
proof -
  let ?terr = "territory g"
  let ?t = "t_now g + dt"
  have m: "xmin (fill_time ?terr (state_a g)) (fill_time ?terr (state_b g)) = Fin dt"
    using st by (rule step_afterD)
  then have which: "fill_time ?terr (state_a g) = Fin dt \<or> fill_time ?terr (state_b g) = Fin dt"
    by (rule xmin_FinD)
  have up: "upto_req ?terr (state_a g)" "upto_req ?terr (state_b g)"
    using inv by (simp_all add: timeline_inv_def)
  have dt0: "0 \<le> dt" using which up fill_time_nonneg by blast
  have f: "0 \<le> forage ?terr" "0 \<le> fills (state_a g)" "0 \<le> fills (state_b g)"
    using inv by (simp_all add: timeline_inv_def)
  have mono: "0 \<le> monolithic (state_a g)" "0 \<le> monolithic (state_b g)"
    using ok by (simp_all add: counts_ok_def)
  have below: "below_req ?terr (adv ?terr dt (state_a g))" "below_req ?terr (adv ?terr dt (state_b g))"
    using f mono by (simp_all add: below_req_adv)
  have bound: "\<forall>x \<in> set (timeline g). x \<le> t_now g" using inv by (simp add: timeline_inv_def)
  have bound': "\<forall>x \<in> set (timeline g @ [?t]). x \<le> ?t" using bound dt0 by auto
  have s1: "sorted (timeline g @ [?t])"
    using inv bound dt0 by (auto simp: timeline_inv_def sorted_append)
  have "timeline_inv (after g dt)"
    unfolding timeline_inv_def
    using f below below_imp_upto bound' s1 by (simp add: fills_adv)
  then show ?thesis using s1 by (simp add: e_timeline_def emitted_def)
qed

lemma timeline_inv_init:
  "0 \<le> forage terr \<Longrightarrow> timeline_inv (simulate_progressive terr ta tb la lb mh stop)"
  by (auto simp: timeline_inv_def simulate_progressive_def init_state_def upto_req_def
      req_of_def requirement_def)

text \<open>
  In double precision a step that was computed to reach a requirement can fall short of
  it, so that the fill is missed and the next step is tiny: with speed \<open>10\<close> and
  requirement \<open>52.02\<close>, \<open>dt\<close> is the double \<open>5.202\<close> and \<open>10 * dt < 52.02\<close>. The
  properties of this section do not depend on the fill being taken.
\<close>

lemma fill_missed_by_rounding: "rnd64 (10 * rnd64 (rnd64 52.02 / 10)) < rnd64 52.02"
  by code_simp

text \<open>
  C4, as the code has it. For a territory with forage \<open>\<ge> 0\<close>, in every yielded tuple
  the timeline and the two yield lists are non-decreasing. The timeline is not strictly
  increasing: a time can occur twice (with forage \<open>0\<close> the first step has length \<open>0\<close>
  and the timeline starts \<open>[0, 0]\<close>, see the counterexample).
\<close>

theorem timeline_and_yields_monotone:
  assumes "0 \<le> forage terr"
  shows "\<forall>e \<in> set (fst (pull n (simulate_progressive terr team_a team_b label_a label_b mh stop))).
           sorted (e_timeline e) \<and> sorted (e_a_yield e) \<and> sorted (e_b_yield e)"
proof -
  let ?g = "simulate_progressive terr team_a team_b label_a label_b mh stop"
  have ok: "counts_ok ?g" by (rule counts_ok_init)
  have y: "\<forall>e \<in> set (fst (pull n ?g)). sorted (e_a_yield e) \<and> sorted (e_b_yield e)"
    using ok yields_inv_init
    by (rule pull_emitted_invariant [where I = yields_inv]) (rule yields_inv_step)
  have t: "\<forall>e \<in> set (fst (pull n ?g)). sorted (e_timeline e)"
    using ok timeline_inv_init [OF assms]
    by (rule pull_emitted_invariant [where I = timeline_inv]) (rule timeline_inv_step)
  show ?thesis using y t by blast
qed

theorem timeline_and_yields_monotone_witness:
  "fst (pull 2 (simulate_progressive (land 0) (meta_team 10) (alchemic_team 8) ''Non-Alchemic'' ''Alchemic'' 48 False))
     = [([0, 0], [0, 1], [0, 2.5], Some 0), ([0, 0, 0.102], [0, 1, 2], [0, 2.5, 2.5], Some 0)]
   \<and> list_all (\<lambda>e. sorted (e_timeline e) \<and> sorted (e_a_yield e) \<and> sorted (e_b_yield e))
        (fst (pull 2 (simulate_progressive (land 0) (meta_team 10) (alchemic_team 8) ''Non-Alchemic'' ''Alchemic'' 48 False)))"
proof -
  have f: "0 \<le> forage (land 0)" by (simp add: land_def)
  have "fst (pull 2 (simulate_progressive (land 0) (meta_team 10) (alchemic_team 8) ''Non-Alchemic'' ''Alchemic'' 48 False))
     = [([0, 0], [0, 1], [0, 2.5], Some 0), ([0, 0, 0.102], [0, 1, 2], [0, 2.5, 2.5], Some 0)]"
    by code_simp
  moreover have "list_all (\<lambda>e. sorted (e_timeline e) \<and> sorted (e_a_yield e) \<and> sorted (e_b_yield e))
        (fst (pull 2 (simulate_progressive (land 0) (meta_team 10) (alchemic_team 8) ''Non-Alchemic'' ''Alchemic'' 48 False)))"
    using timeline_and_yields_monotone [OF f, of 2 "meta_team 10" "alchemic_team 8" "''Non-Alchemic''" "''Alchemic''" 48 False]
    unfolding list_all_iff by blast
  ultimately show ?thesis by (rule conjI)
qed

theorem strictly_increasing_counterexample:
  "0 \<le> forage (land 0)
   \<and> Team_post_init (meta_team 10) = Inr () \<and> Team_post_init (alchemic_team 8) = Inr ()
   \<and> fst (pull 1 (simulate_progressive (land 0) (meta_team 10) (alchemic_team 8) ''Non-Alchemic'' ''Alchemic'' 48 True))
       = [([0, 0], [0, 1], [0, 2.5], Some 0)]
   \<and> \<not> sorted_wrt (<) (e_timeline (hd (fst (pull 1 (simulate_progressive (land 0) (meta_team 10) (alchemic_team 8) ''Non-Alchemic'' ''Alchemic'' 48 True)))))"
  by code_simp

subsection \<open>Breakeven\<close>

lemma b_ahead_emitted_after:
  "b_ahead (emitted (after g dt))
     \<longleftrightarrow> spice (adv (territory g) dt (state_b g)) > spice (adv (territory g) dt (state_a g))"
  by (simp add: b_ahead_def e_a_yield_def e_b_yield_def emitted_def)

lemma breakeven_emitted_after:
  "e_breakeven (emitted (after g dt))
     = (if breakeven g = None \<and> b_ahead (emitted (after g dt))
        then Some (last (e_timeline (emitted (after g dt)))) else breakeven g)"
  by (simp add: b_ahead_def e_a_yield_def e_b_yield_def b_overtakes_def e_breakeven_def
      e_timeline_def emitted_def)

lemma breakeven_after:
  "breakeven (after g dt)
     = (if breakeven g = None \<and> b_ahead (emitted (after g dt))
        then Some (last (e_timeline (emitted (after g dt)))) else breakeven g)"
  using breakeven_emitted_after [of g dt] by (simp add: e_breakeven_def emitted_def)

lemma pull_Suc_cases:
  assumes "counts_ok g"
  obtains (stop) "step g = None" "pull (Suc n) g = ([], Exhausted)"
  | (go) dt where "step g = Some (emitted (after g dt), after g dt)" "counts_ok (after g dt)"
      "pull (Suc n) g = (emitted (after g dt) # fst (pull n (after g dt)), snd (pull n (after g dt)))"
proof (cases "step g")
  case None
  then show ?thesis using assms stop by (simp add: pull_step del: pull.simps(2))
next
  case (Some p)
  obtain e g' where p: "p = (e, g')" by (cases p)
  from Some p obtain dt where g': "g' = after g dt" "e = emitted g'" by (auto elim: step_SomeD)
  show ?thesis
  proof (rule go [of dt])
    show "step g = Some (emitted (after g dt), after g dt)" using Some p g' by simp
    show "counts_ok (after g dt)" using assms by (rule counts_ok_after)
    show "pull (Suc n) g = (emitted (after g dt) # fst (pull n (after g dt)), snd (pull n (after g dt)))"
      using Some p g' assms by (simp add: pull_step del: pull.simps(2))
  qed
qed

lemma breakeven_history:
  assumes "counts_ok g" "k < length (fst (pull n g))"
  shows "e_breakeven (fst (pull n g) ! k)
           = (case breakeven g of
                Some v \<Rightarrow> Some v
              | None \<Rightarrow> map_option (\<lambda>e. last (e_timeline e)) (find b_ahead (take (Suc k) (fst (pull n g)))))"
  using assms
proof (induction n arbitrary: g k)
  case 0
  then show ?case by simp
next
  case (Suc n)
  from Suc.prems(1) show ?case
  proof (cases rule: pull_Suc_cases [where n = n])
    case stop
    then show ?thesis using Suc.prems by simp
  next
    case (go dt)
    let ?g' = "after g dt"
    let ?e = "emitted ?g'"
    show ?thesis
    proof (cases k)
      case 0
      then show ?thesis using go(3) breakeven_emitted_after [of g dt]
        by (simp split: option.split)
    next
      case (Suc k')
      then have k': "k' < length (fst (pull n ?g'))" using Suc.prems(2) go(3) by simp
      have "e_breakeven (fst (pull n ?g') ! k')
           = (case breakeven ?g' of
                Some v \<Rightarrow> Some v
              | None \<Rightarrow> map_option (\<lambda>e. last (e_timeline e)) (find b_ahead (take (Suc k') (fst (pull n ?g')))))"
        using go(2) k' by (rule Suc.IH)
      then show ?thesis using Suc go(3) breakeven_after [of g dt]
        by (simp split: option.split)
    qed
  qed
qed


lemma pull_at_return:
  assumes "counts_ok g" "at_return g"
  shows "fst (pull n g) = [] \<and> (0 < n \<longrightarrow> snd (pull n g) = Exhausted)"
proof (cases n)
  case 0
  then show ?thesis by simp
next
  case (Suc n')
  have "step g = None" using assms(2) by (simp add: step_def)
  then show ?thesis using Suc assms(1) by (simp add: pull_step del: pull.simps(2))
qed

lemma stop_is_last:
  assumes "counts_ok g" "stop_at_breakeven g" "breakeven g \<noteq> None \<longrightarrow> at_return g"
    and "k < length (fst (pull n g))" "e_breakeven (fst (pull n g) ! k) \<noteq> None"
  shows "Suc k = length (fst (pull n g)) \<and> (Suc k < n \<longrightarrow> snd (pull n g) = Exhausted)"
  using assms
proof (induction n arbitrary: g k)
  case 0
  then show ?case by simp
next
  case (Suc n)
  from Suc.prems(1) show ?case
  proof (cases rule: pull_Suc_cases [where n = n])
    case stop
    then show ?thesis using Suc.prems by simp
  next
    case (go dt)
    let ?g' = "after g dt"
    have inv': "stop_at_breakeven ?g'" "breakeven ?g' \<noteq> None \<longrightarrow> at_return ?g'"
      using Suc.prems(2,3) by auto
    show ?thesis
    proof (cases k)
      case 0
      then have "breakeven ?g' \<noteq> None"
        using Suc.prems(5) go(3) by (simp add: e_breakeven_def emitted_def)
      then have "at_return ?g'" using inv' by simp
      then have "fst (pull n ?g') = [] \<and> (0 < n \<longrightarrow> snd (pull n ?g') = Exhausted)"
        using go(2) by (intro pull_at_return)
      then show ?thesis using 0 go(3) by simp
    next
      case (Suc k')
      then have k': "k' < length (fst (pull n ?g'))"
        and b: "e_breakeven (fst (pull n ?g') ! k') \<noteq> None"
        using Suc.prems(4,5) go(3) by simp_all
      have "Suc k' = length (fst (pull n ?g')) \<and> (Suc k' < n \<longrightarrow> snd (pull n ?g') = Exhausted)"
        using go(2) inv' k' b by (rule Suc.IH)
      then show ?thesis using Suc go(3) by simp
    qed
  qed
qed

lemma nonstop_suspended:
  assumes "counts_ok g" "\<not> stop_at_breakeven g" "\<not> at_return g" "snd (pull n g) = Suspended g'"
  shows "counts_ok g' \<and> \<not> at_return g' \<and> territory g' = territory g \<and> max_hours g' = max_hours g"
  using assms
proof (induction n arbitrary: g)
  case 0
  then show ?case by simp
next
  case (Suc n)
  from Suc.prems(1) show ?case
  proof (cases rule: pull_Suc_cases [where n = n])
    case stop
    then show ?thesis using Suc.prems by simp
  next
    case (go dt)
    let ?g1 = "after g dt"
    have "\<not> stop_at_breakeven ?g1" "\<not> at_return ?g1" using Suc.prems(2,3) by simp_all
    moreover have "snd (pull n ?g1) = Suspended g'" using Suc.prems(4) go(3) by simp
    ultimately have "counts_ok g' \<and> \<not> at_return g' \<and> territory g' = territory ?g1
        \<and> max_hours g' = max_hours ?g1"
      using go(2) by (intro Suc.IH)
    then show ?thesis by simp
  qed
qed

lemma emits_iff_within_budget:
  assumes "counts_ok g" "\<not> at_return g"
  shows "(\<exists>e g'. gen_next g = Inr (Some (e, g')))
     \<longleftrightarrow> (t_now g \<le> of_int (max_hours g)
          \<and> (\<exists>fa fb dt. next_fill_time (territory g) (state_a g) = Inr fa
                \<and> next_fill_time (territory g) (state_b g) = Inr fb
                \<and> xmin fa fb = Fin dt \<and> t_now g + dt \<le> of_int (max_hours g)))"
proof -
  have m: "0 \<le> monolithic (state_a g)" "0 \<le> monolithic (state_b g)"
    using assms(1) by (simp_all add: counts_ok_def)
  show ?thesis
    using assms(2)
    by (auto simp: gen_next_ok [OF assms(1)] next_fill_time_ok [OF m(1)] next_fill_time_ok [OF m(2)]
        step_def emitted_def split: xfloat.splits)
qed

text \<open>
  C3. Let \<open>es\<close> be the tuples obtained from \<open>simulate_progressive\<close> by at most \<open>n\<close> calls
  of \<open>next\<close>. The breakeven of the \<open>k\<close>-th tuple is \<open>None\<close> as long as team B has not been
  ahead in any tuple up to the \<open>k\<close>-th, and otherwise it is the time of the first tuple in
  which B was ahead: set at that step and never changed afterwards. With
  \<open>stop_at_breakeven\<close>, a tuple with a breakeven is the last one and the next \<open>next\<close>
  exhausts the generator. Without it, the suspended generator yields again exactly when
  the loop test passes and the advanced time stays within \<open>max_hours\<close>.
\<close>

theorem breakeven_detection:
  assumes "es = fst (pull n (simulate_progressive terr team_a team_b label_a label_b mh stop))"
  shows "(\<forall>k < length es.
            e_breakeven (es ! k)
              = map_option (\<lambda>e. last (e_timeline e)) (find b_ahead (take (Suc k) es)))
         \<and> (stop \<longrightarrow> (\<forall>k < length es. e_breakeven (es ! k) \<noteq> None \<longrightarrow>
               Suc k = length es
               \<and> (Suc k < n \<longrightarrow>
                    snd (pull n (simulate_progressive terr team_a team_b label_a label_b mh stop)) = Exhausted)))
         \<and> (\<not> stop \<longrightarrow> (\<forall>g. snd (pull n (simulate_progressive terr team_a team_b label_a label_b mh stop)) = Suspended g \<longrightarrow>
               ((\<exists>e g'. gen_next g = Inr (Some (e, g')))
                 \<longleftrightarrow> (t_now g \<le> of_int mh
                      \<and> (\<exists>fa fb dt. next_fill_time terr (state_a g) = Inr fa
                            \<and> next_fill_time terr (state_b g) = Inr fb
                            \<and> xmin fa fb = Fin dt \<and> t_now g + dt \<le> of_int mh)))))"
proof -
  let ?g = "simulate_progressive terr team_a team_b label_a label_b mh stop"
  have ok: "counts_ok ?g" by (rule counts_ok_init)
  have init: "breakeven ?g = None" "\<not> at_return ?g" "stop_at_breakeven ?g = stop"
    "territory ?g = terr" "max_hours ?g = mh"
    by (simp_all add: simulate_progressive_def)
  have 1: "\<forall>k < length es.
            e_breakeven (es ! k)
              = map_option (\<lambda>e. last (e_timeline e)) (find b_ahead (take (Suc k) es))"
    using breakeven_history [OF ok] init(1) unfolding assms by simp
  have 2: "\<forall>k < length es. e_breakeven (es ! k) \<noteq> None \<longrightarrow>
               Suc k = length es \<and> (Suc k < n \<longrightarrow> snd (pull n ?g) = Exhausted)" if stop
    using stop_is_last [OF ok] init(1,3) that unfolding assms by simp
  have 3: "(\<exists>e g'. gen_next g = Inr (Some (e, g')))
                 \<longleftrightarrow> (t_now g \<le> of_int mh
                      \<and> (\<exists>fa fb dt. next_fill_time terr (state_a g) = Inr fa
                            \<and> next_fill_time terr (state_b g) = Inr fb
                            \<and> xmin fa fb = Fin dt \<and> t_now g + dt \<le> of_int mh))"
    if "\<not> stop" "snd (pull n ?g) = Suspended g" for g
  proof -
    have ns: "\<not> stop_at_breakeven ?g" using that(1) by (simp add: simulate_progressive_def)
    have "counts_ok g \<and> \<not> at_return g \<and> territory g = territory ?g \<and> max_hours g = max_hours ?g"
      using ok ns init(2) that(2) by (rule nonstop_suspended)
    then show ?thesis using emits_iff_within_budget [of g] init(4,5) by simp
  qed
  show ?thesis using 1 2 3 by blast
qed


theorem breakeven_detection_witness:
  "fst (pull 3 (simulate_progressive (land 100) (meta_team 10) (alchemic_team 8) ''Non-Alchemic'' ''Alchemic'' 48 True))
     = [([0, 10], [0, 1], [0, 0], None), ([0, 10, 12.5], [0, 1, 1], [0, 0, 2.5], Some 12.5)]
   \<and> e_breakeven (fst (pull 3 (simulate_progressive (land 100) (meta_team 10) (alchemic_team 8) ''Non-Alchemic'' ''Alchemic'' 48 True)) ! 1)
       = map_option (\<lambda>e. last (e_timeline e))
           (find b_ahead (take (Suc 1) (fst (pull 3 (simulate_progressive (land 100) (meta_team 10) (alchemic_team 8) ''Non-Alchemic'' ''Alchemic'' 48 True)))))
   \<and> Suc 1 = length (fst (pull 3 (simulate_progressive (land 100) (meta_team 10) (alchemic_team 8) ''Non-Alchemic'' ''Alchemic'' 48 True)))
   \<and> snd (pull 3 (simulate_progressive (land 100) (meta_team 10) (alchemic_team 8) ''Non-Alchemic'' ''Alchemic'' 48 True)) = Exhausted
   \<and> (case snd (pull 3 (simulate_progressive (land 100) (meta_team 10) (alchemic_team 8) ''Non-Alchemic'' ''Alchemic'' 48 False)) of
        Suspended g \<Rightarrow>
          ((\<exists>e g'. gen_next g = Inr (Some (e, g')))
             \<longleftrightarrow> (t_now g \<le> of_int 48
                  \<and> (\<exists>fa fb dt. next_fill_time (land 100) (state_a g) = Inr fa
                        \<and> next_fill_time (land 100) (state_b g) = Inr fb
                        \<and> xmin fa fb = Fin dt \<and> t_now g + dt \<le> of_int 48)))
      | Exhausted \<Rightarrow> False
      | Raised err \<Rightarrow> False)"
proof -
  let ?G = "simulate_progressive (land 100) (meta_team 10) (alchemic_team 8) ''Non-Alchemic'' ''Alchemic'' 48 True"
  let ?H = "simulate_progressive (land 100) (meta_team 10) (alchemic_team 8) ''Non-Alchemic'' ''Alchemic'' 48 False"
  note T = breakeven_detection [OF refl, of 3 "land 100" "meta_team 10" "alchemic_team 8" "''Non-Alchemic''" "''Alchemic''" 48 True]
  note F = breakeven_detection [OF refl, of 3 "land 100" "meta_team 10" "alchemic_team 8" "''Non-Alchemic''" "''Alchemic''" 48 False]
  have ev: "fst (pull 3 ?G)
     = [([0, 10], [0, 1], [0, 0], None), ([0, 10, 12.5], [0, 1, 1], [0, 0, 2.5], Some 12.5)]"
    by code_simp
  have k: "1 < length (fst (pull 3 ?G))" unfolding ev by simp
  have b: "e_breakeven (fst (pull 3 ?G) ! 1) \<noteq> None" unfolding ev by (simp add: e_breakeven_def)
  have 1: "e_breakeven (fst (pull 3 ?G) ! 1)
       = map_option (\<lambda>e. last (e_timeline e)) (find b_ahead (take (Suc 1) (fst (pull 3 ?G))))"
    using T k by blast
  have 2: "Suc 1 = length (fst (pull 3 ?G)) \<and> (Suc 1 < 3 \<longrightarrow> snd (pull 3 ?G) = Exhausted)"
    using T k b by blast
  have s: "case snd (pull 3 ?H) of Suspended g \<Rightarrow> True | Exhausted \<Rightarrow> False | Raised err \<Rightarrow> False"
    by code_simp
  have 3: "case snd (pull 3 ?H) of
        Suspended g \<Rightarrow>
          ((\<exists>e g'. gen_next g = Inr (Some (e, g')))
             \<longleftrightarrow> (t_now g \<le> of_int 48
                  \<and> (\<exists>fa fb dt. next_fill_time (land 100) (state_a g) = Inr fa
                        \<and> next_fill_time (land 100) (state_b g) = Inr fb
                        \<and> xmin fa fb = Fin dt \<and> t_now g + dt \<le> of_int 48)))
      | Exhausted \<Rightarrow> False
      | Raised err \<Rightarrow> False"
  proof (cases "snd (pull 3 ?H)")
    case (Suspended g)
    then show ?thesis using F by simp
  next
    case Exhausted
    then show ?thesis using s by simp
  next
    case (Raised err)
    then show ?thesis using s by simp
  qed
  show ?thesis using ev 1 2 3 by (intro conjI) simp_all
qed

subsection \<open>Team construction\<close>

lemma Team_post_init_Inl_iff:
  "(\<exists>msg. Team_post_init team = Inl (ValueError msg)) \<longleftrightarrow>
     (MAX_TEAM_SIZE < length (pets team)
      \<or> (manual_speed team = None \<and> (\<exists>p \<in> set (pets team). pet_power p = None)))"
  by (auto simp: Team_post_init_def Team_size_def list_ex_iff)

lemma Team_post_init_cases:
  "Team_post_init team = Inr () \<or> (\<exists>msg. Team_post_init team = Inl (ValueError msg))"
  by (simp add: Team_post_init_def)

lemma new_Team_Inl_iff:
  "(\<exists>msg. new_Team nm ps terr ms = Inl (ValueError msg)) \<longleftrightarrow>
     (MAX_TEAM_SIZE < length ps \<or> (ms = None \<and> (\<exists>p \<in> set ps. pet_power p = None)))"
proof -
  let ?team = "\<lparr>team_name = nm, pets = ps, team_territory = terr, manual_speed = ms\<rparr>"
  have "(\<exists>msg. new_Team nm ps terr ms = Inl (ValueError msg))
          \<longleftrightarrow> (\<exists>msg. Team_post_init ?team = Inl (ValueError msg))"
    by (auto simp: new_Team_def Let_def split: sum.splits)
  then show ?thesis using Team_post_init_Inl_iff [of ?team] by simp
qed

lemma new_Team_Inr:
  assumes "\<not> (MAX_TEAM_SIZE < length ps \<or> (ms = None \<and> (\<exists>p \<in> set ps. pet_power p = None)))"
  shows "new_Team nm ps terr ms
           = Inr \<lparr>team_name = nm, pets = ps, team_territory = terr, manual_speed = ms\<rparr>"
proof -
  let ?team = "\<lparr>team_name = nm, pets = ps, team_territory = terr, manual_speed = ms\<rparr>"
  have "\<not> (\<exists>msg. Team_post_init ?team = Inl (ValueError msg))"
    using assms Team_post_init_Inl_iff [of ?team] by simp
  then have "Team_post_init ?team = Inr ()" using Team_post_init_cases [of ?team] by blast
  then show ?thesis by (simp add: new_Team_def)
qed

text \<open>
  C8. Constructing a team raises a \<open>ValueError\<close> exactly when there are more than
  \<open>MAX_TEAM_SIZE = 4\<close> pets, or no manual speed is given and some pet has no power. In
  particular five pets fail, a pet without power and no manual speed fails, and a team
  that satisfies both conditions is constructed with the fields given. The simulation
  itself never raises, whatever the teams.
\<close>

theorem team_construction_validation:
  "((\<exists>msg. new_Team nm ps terr ms = Inl (ValueError msg)) \<longleftrightarrow>
       (MAX_TEAM_SIZE < length ps \<or> (ms = None \<and> (\<exists>p \<in> set ps. pet_power p = None))))
   \<and> MAX_TEAM_SIZE = 4
   \<and> (length ps = 5 \<longrightarrow> (\<exists>msg. new_Team nm ps terr ms = Inl (ValueError msg)))
   \<and> (ms = None \<and> (\<exists>p \<in> set ps. pet_power p = None)
        \<longrightarrow> (\<exists>msg. new_Team nm ps terr ms = Inl (ValueError msg)))
   \<and> (length ps \<le> 4 \<and> (ms \<noteq> None \<or> (\<forall>p \<in> set ps. pet_power p \<noteq> None))
        \<longrightarrow> new_Team nm ps terr ms
              = Inr \<lparr>team_name = nm, pets = ps, team_territory = terr, manual_speed = ms\<rparr>)
   \<and> (\<forall>n err. snd (pull n (simulate_progressive territ team_a team_b label_a label_b mh stop)) \<noteq> Raised err)"
proof -
  have 1: "(\<exists>msg. new_Team nm ps terr ms = Inl (ValueError msg)) \<longleftrightarrow>
       (MAX_TEAM_SIZE < length ps \<or> (ms = None \<and> (\<exists>p \<in> set ps. pet_power p = None)))"
    by (rule new_Team_Inl_iff)
  have 2: "MAX_TEAM_SIZE = 4" by (simp add: MAX_TEAM_SIZE_def)
  have 3: "\<exists>msg. new_Team nm ps terr ms = Inl (ValueError msg)" if "length ps = 5"
    using 1 2 that by simp
  have 4: "\<exists>msg. new_Team nm ps terr ms = Inl (ValueError msg)"
    if "ms = None \<and> (\<exists>p \<in> set ps. pet_power p = None)"
    using 1 that by blast
  have 5: "new_Team nm ps terr ms
              = Inr \<lparr>team_name = nm, pets = ps, team_territory = terr, manual_speed = ms\<rparr>"
    if "length ps \<le> 4 \<and> (ms \<noteq> None \<or> (\<forall>p \<in> set ps. pet_power p \<noteq> None))"
    using that 2 by (intro new_Team_Inr) auto
  have 6: "snd (pull n (simulate_progressive territ team_a team_b label_a label_b mh stop)) \<noteq> Raised err"
    for n err
    using counts_ok_init by (rule pull_never_raises)
  show ?thesis using 1 2 3 4 5 6 by blast
qed

theorem team_construction_validation_witness:
  "new_Team ''Five'' (map pet_of [''Borger'', ''Miasma'', ''Forager'', ''Converter'', ''Alchemic'']) None (Some 10)
     = Inl (ValueError ''A team cannot contain more than 4 pets (got 5).'')
   \<and> new_Team ''Powerless'' [\<lparr>genetic = \<lparr>genetic_id = 0, genetic_name = ''Forager''\<rparr>, pet_power = Some 3\<rparr>, pet_of ''Borger''] None None
     = Inl (ValueError ''All pets must have power if manual speed is not set.'')
   \<and> (\<exists>msg. new_Team ''Five'' (map pet_of [''Borger'', ''Miasma'', ''Forager'', ''Converter'', ''Alchemic'']) None (Some 10)
          = Inl (ValueError msg))
   \<and> (\<exists>msg. new_Team ''Powerless'' [\<lparr>genetic = \<lparr>genetic_id = 0, genetic_name = ''Forager''\<rparr>, pet_power = Some 3\<rparr>, pet_of ''Borger''] None None
          = Inl (ValueError msg))
   \<and> new_Team ''Meta Team'' (map pet_of [''Borger'', ''Miasma'', ''Forager'', ''Converter'']) None (Some 10)
     = Inr (meta_team 10)"
proof -
  have a: "new_Team ''Five'' (map pet_of [''Borger'', ''Miasma'', ''Forager'', ''Converter'', ''Alchemic'']) None (Some 10)
     = Inl (ValueError ''A team cannot contain more than 4 pets (got 5).'')"
    by code_simp
  have b: "new_Team ''Powerless'' [\<lparr>genetic = \<lparr>genetic_id = 0, genetic_name = ''Forager''\<rparr>, pet_power = Some 3\<rparr>, pet_of ''Borger''] None None
     = Inl (ValueError ''All pets must have power if manual speed is not set.'')"
    by code_simp
  have c: "\<exists>msg. new_Team ''Five'' (map pet_of [''Borger'', ''Miasma'', ''Forager'', ''Converter'', ''Alchemic'']) None (Some 10)
          = Inl (ValueError msg)"
    using team_construction_validation
      [of "''Five''" "map pet_of [''Borger'', ''Miasma'', ''Forager'', ''Converter'', ''Alchemic'']" None "Some 10"
        "land 100" "meta_team 10" "alchemic_team 8" "''Non-Alchemic''" "''Alchemic''" 48 True]
    by simp
  have d: "\<exists>msg. new_Team ''Powerless'' [\<lparr>genetic = \<lparr>genetic_id = 0, genetic_name = ''Forager''\<rparr>, pet_power = Some 3\<rparr>, pet_of ''Borger''] None None
          = Inl (ValueError msg)"
    using team_construction_validation
      [of "''Powerless''" "[\<lparr>genetic = \<lparr>genetic_id = 0, genetic_name = ''Forager''\<rparr>, pet_power = Some 3\<rparr>, pet_of ''Borger'']" None None
        "land 100" "meta_team 10" "alchemic_team 8" "''Non-Alchemic''" "''Alchemic''" 48 True]
    by (simp add: pet_of_def)
  have e: "new_Team ''Meta Team'' (map pet_of [''Borger'', ''Miasma'', ''Forager'', ''Converter'']) None (Some 10)
     = Inr (meta_team 10)"
    using team_construction_validation
      [of "''Meta Team''" "map pet_of [''Borger'', ''Miasma'', ''Forager'', ''Converter'']" None "Some 10"
        "land 100" "meta_team 10" "alchemic_team 8" "''Non-Alchemic''" "''Alchemic''" 48 True]
    by (simp add: meta_team_def)
  show ?thesis using a b c d e by (intro conjI)
qed

subsection \<open>The requirement curve in double precision\<close>

lemma py_round_of_int [simp]: "py_round (of_int k) = k"
  by (simp add: py_round_def)

lemma py_round_mono: "x \<le> y \<Longrightarrow> py_round x \<le> py_round y"
proof (rule ccontr)
  assume xy: "x \<le> y" and "\<not> py_round x \<le> py_round y"
  then have "py_round y + 1 \<le> py_round x" by simp
  then have g: "real_of_int (py_round y) + 1 \<le> of_int (py_round x)"
    by (metis of_int_1 of_int_add of_int_le_iff)
  have a: "\<bar>of_int (py_round x) - x\<bar> \<le> 1 / 2" by (rule py_round_nearest)
  have b: "\<bar>of_int (py_round y) - y\<bar> \<le> 1 / 2" by (rule py_round_nearest)
  from a b g xy have "x = y" by linarith
  then show False using \<open>\<not> py_round x \<le> py_round y\<close> by simp
qed

lemma two_powi_pos [simp]: "0 < (2::real) powi k"
  by simp

lemma binade_bounds:
  assumes "0 < x"
  shows "2 powi binade x \<le> x \<and> x < 2 powi (binade x + 1)"
proof (cases "1 \<le> x")
  case True
  let ?i = "\<lfloor>x\<rfloor>"
  have i: "0 < ?i" using True by simp
  have b: "2 ^ nat (bitlen ?i - 1) \<le> ?i" "?i < 2 ^ nat (bitlen ?i)"
    using bitlen_bounds [OF i] by simp_all
  have b1: "1 \<le> bitlen ?i" using i by (simp add: bitlen_alt_def)
  have e: "binade x = bitlen ?i - 1" using True by (simp add: binade_def)
  have "(2::real) powi (bitlen ?i - 1) = of_int (2 ^ nat (bitlen ?i - 1))"
    using b1 by (simp add: power_int_def)
  also have "\<dots> \<le> of_int ?i" using b(1) by (simp only: of_int_le_iff)
  also have "\<dots> \<le> x" by simp
  finally have lo: "2 powi binade x \<le> x" unfolding e .
  have "?i + 1 \<le> 2 ^ nat (bitlen ?i)" using b(2) by simp
  then have "real_of_int (?i + 1) \<le> of_int (2 ^ nat (bitlen ?i))" by (simp only: of_int_le_iff)
  then have up: "real_of_int ?i + 1 \<le> 2 ^ nat (bitlen ?i)" by simp
  have xlt: "x < real_of_int ?i + 1" by linarith
  have pw: "(2::real) powi (bitlen ?i - 1 + 1) = 2 ^ nat (bitlen ?i)"
    using b1 by (simp add: power_int_def)
  have hi: "x < 2 powi (binade x + 1)" unfolding e pw using up xlt by linarith
  show ?thesis using lo hi by simp
next
  case False
  then have x1: "x < 1" by simp
  define y where "y = 1 / x"
  define j where "j = \<lceil>y\<rceil> - 1"
  have y1: "1 < y" using assms x1 by (simp add: y_def)
  then have "1 < \<lceil>y\<rceil>" by (simp add: less_ceiling_iff)
  then have j: "0 < j" by (simp add: j_def)
  have b: "2 ^ nat (bitlen j - 1) \<le> j" "j < 2 ^ nat (bitlen j)"
    using bitlen_bounds [OF j] by simp_all
  have b1: "1 \<le> bitlen j" using j by (simp add: bitlen_alt_def)
  have e: "binade x = - bitlen j" using False by (simp add: binade_def j_def y_def)
  have jy: "of_int j < y" "y \<le> of_int j + 1" unfolding j_def by linarith+
  have "real_of_int (2 ^ nat (bitlen j - 1)) \<le> of_int j" using b(1) by (simp only: of_int_le_iff)
  then have "2 ^ nat (bitlen j - 1) \<le> real_of_int j" by simp
  then have lo: "2 ^ nat (bitlen j - 1) < y" using jy(1) by linarith
  have "j + 1 \<le> 2 ^ nat (bitlen j)" using b(2) by simp
  then have "real_of_int (j + 1) \<le> of_int (2 ^ nat (bitlen j))" by (simp only: of_int_le_iff)
  then have "real_of_int j + 1 \<le> 2 ^ nat (bitlen j)" by simp
  then have hi: "y \<le> 2 ^ nat (bitlen j)" using jy(2) by linarith
  have p1: "(2::real) powi (- bitlen j) = 1 / 2 ^ nat (bitlen j)"
    using b1 by (simp add: power_int_def field_simps)
  have p2: "(2::real) powi (- bitlen j + 1) = 1 / 2 ^ nat (bitlen j - 1)"
  proof -
    obtain n where n: "bitlen j - 1 = int n" using b1 by (metis diff_ge_0_iff_ge nonneg_int_cases)
    have "- bitlen j + 1 = - int n" using n by simp
    moreover have "nat (bitlen j - 1) = n" using n by simp
    moreover have "(2::real) powi (- int n) = 1 / 2 ^ n" by (simp add: power_int_minus_divide)
    ultimately show ?thesis by simp
  qed
  have "1 / 2 ^ nat (bitlen j) \<le> x" using hi assms by (simp add: y_def field_simps)
  moreover have "x < 1 / 2 ^ nat (bitlen j - 1)" using lo assms by (simp add: y_def field_simps)
  ultimately show ?thesis unfolding e p1 p2 by simp
qed

lemma binade_unique:
  assumes "0 < x" "2 powi k \<le> x" "x < 2 powi (k + 1)"
  shows "binade x = k"
proof -
  have b: "2 powi binade x \<le> x" "x < 2 powi (binade x + 1)"
    using binade_bounds [OF assms(1)] by simp_all
  have "(2::real) powi k < 2 powi (binade x + 1)" using assms(2) b(2) by simp
  then have 1: "k < binade x + 1"
    by (metis linorder_not_less power_int_increasing one_le_numeral)
  have "(2::real) powi binade x < 2 powi (k + 1)" using assms(3) b(1) by simp
  then have 2: "binade x < k + 1"
    by (metis linorder_not_less power_int_increasing one_le_numeral)
  show ?thesis using 1 2 by simp
qed

lemma rnd64_pos:
  "0 < x \<Longrightarrow> rnd64 x = of_int (py_round (x / 2 powi (binade x - 52))) * 2 powi (binade x - 52)"
  by (simp add: rnd64_def Let_def)

lemma binade_split:
  "(2::real) powi e = 2 powi (e - 52) * 2 ^ 52" "(2::real) powi (e + 1) = 2 powi (e - 52) * 2 ^ 53"
proof -
  have "(2::real) powi e = 2 powi ((e - 52) + 52)"
    by (rule arg_cong [where f = "\<lambda>k. 2 powi k"]) simp
  also have "\<dots> = 2 powi (e - 52) * 2 powi 52" by (subst power_int_add) simp_all
  finally show "(2::real) powi e = 2 powi (e - 52) * 2 ^ 52" by simp
  have "(2::real) powi (e + 1) = 2 powi ((e - 52) + 53)"
    by (rule arg_cong [where f = "\<lambda>k. 2 powi k"]) simp
  also have "\<dots> = 2 powi (e - 52) * 2 powi 53" by (subst power_int_add) simp_all
  finally show "(2::real) powi (e + 1) = 2 powi (e - 52) * 2 ^ 53" by simp
qed

lemma significand_range:
  assumes "0 < x"
  shows "2 ^ 52 \<le> py_round (x / 2 powi (binade x - 52))
         \<and> py_round (x / 2 powi (binade x - 52)) \<le> 2 ^ 53"
proof -
  let ?u = "(2::real) powi (binade x - 52)"
  have u: "0 < ?u" by simp
  have b: "2 powi binade x \<le> x" "x < 2 powi (binade x + 1)"
    using binade_bounds [OF assms] by simp_all
  have "?u * 2 ^ 52 \<le> x" using b(1) binade_split(1) [of "binade x"] by simp
  then have lo: "real_of_int (2 ^ 52) \<le> x / ?u" using u by (simp add: pos_le_divide_eq mult.commute)
  have "x \<le> ?u * 2 ^ 53" using b(2) binade_split(2) [of "binade x"] by simp
  then have hi: "x / ?u \<le> real_of_int (2 ^ 53)" using u by (simp add: pos_divide_le_eq mult.commute)
  have "py_round (real_of_int (2 ^ 52)) \<le> py_round (x / ?u)" using lo by (rule py_round_mono)
  moreover have "py_round (x / ?u) \<le> py_round (real_of_int (2 ^ 53))" using hi by (rule py_round_mono)
  ultimately show ?thesis by (simp only: py_round_of_int) 
qed

lemma rnd64_bounds:
  assumes "0 < x"
  shows "2 powi binade x \<le> rnd64 x \<and> rnd64 x \<le> 2 powi (binade x + 1)"
proof -
  let ?u = "(2::real) powi (binade x - 52)"
  let ?K = "py_round (x / ?u)"
  have u: "0 < ?u" by simp
  have K: "2 ^ 52 \<le> ?K" "?K \<le> 2 ^ 53" using significand_range [OF assms] by simp_all
  have "real_of_int (2 ^ 52) \<le> of_int ?K" using K(1) by (simp only: of_int_le_iff)
  then have "2 ^ 52 * ?u \<le> of_int ?K * ?u" using u by (simp add: mult_right_mono)
  then have lo: "2 powi binade x \<le> rnd64 x"
    using binade_split(1) [of "binade x"] by (simp add: rnd64_pos [OF assms] mult.commute)
  have "real_of_int ?K \<le> of_int (2 ^ 53)" using K(2) by (simp only: of_int_le_iff)
  then have "of_int ?K * ?u \<le> 2 ^ 53 * ?u" using u by (simp add: mult_right_mono)
  then have hi: "rnd64 x \<le> 2 powi (binade x + 1)"
    using binade_split(2) [of "binade x"] by (simp add: rnd64_pos [OF assms] mult.commute)
  show ?thesis using lo hi by simp
qed

lemma rnd64_pos_pos: "0 < x \<Longrightarrow> 0 < rnd64 x"
proof -
  assume x: "0 < x"
  have "(0::real) < 2 powi binade x" by simp
  also have "\<dots> \<le> rnd64 x" using rnd64_bounds [OF x] by simp
  finally show ?thesis .
qed

lemma rnd64_0 [simp]: "rnd64 0 = 0"
  by (simp add: rnd64_def)

lemma binade_mono:
  assumes "0 < x" "x \<le> y"
  shows "binade x \<le> binade y"
proof (rule ccontr)
  assume "\<not> binade x \<le> binade y"
  then have "binade y + 1 \<le> binade x" by simp
  then have "(2::real) powi (binade y + 1) \<le> 2 powi binade x"
    by (intro power_int_increasing) simp_all
  moreover have "y < 2 powi (binade y + 1)" using binade_bounds [of y] assms by simp
  moreover have "2 powi binade x \<le> x" using binade_bounds [OF assms(1)] by simp
  ultimately show False using assms(2) by linarith
qed

lemma rnd64_mono_pos:
  assumes "0 < x" "x \<le> y"
  shows "rnd64 x \<le> rnd64 y"
proof -
  have y: "0 < y" using assms by simp
  have le: "binade x \<le> binade y" using assms by (rule binade_mono)
  show ?thesis
  proof (cases "binade x = binade y")
    case True
    let ?u = "(2::real) powi (binade x - 52)"
    have u: "0 < ?u" by simp
    have "x / ?u \<le> y / ?u" using assms(2) u by (simp add: divide_right_mono)
    then have "py_round (x / ?u) \<le> py_round (y / ?u)" by (rule py_round_mono)
    then have "real_of_int (py_round (x / ?u)) \<le> of_int (py_round (y / ?u))" by (simp only: of_int_le_iff)
    then have "of_int (py_round (x / ?u)) * ?u \<le> of_int (py_round (y / ?u)) * ?u"
      using u by (simp add: mult_right_mono)
    then show ?thesis unfolding rnd64_pos [OF assms(1)] rnd64_pos [OF y] True [symmetric] .
  next
    case False
    then have "binade x + 1 \<le> binade y" using le by simp
    then have "(2::real) powi (binade x + 1) \<le> 2 powi binade y"
      by (intro power_int_increasing) simp_all
    moreover have "rnd64 x \<le> 2 powi (binade x + 1)" using rnd64_bounds [OF assms(1)] by simp
    moreover have "2 powi binade y \<le> rnd64 y" using rnd64_bounds [OF y] by simp
    ultimately show ?thesis by linarith
  qed
qed

lemma rnd64_mono:
  assumes "0 \<le> x" "x \<le> y"
  shows "rnd64 x \<le> rnd64 y"
proof (cases "x = 0")
  case True
  show ?thesis
  proof (cases "y = 0")
    case True
    then show ?thesis using \<open>x = 0\<close> by simp
  next
    case False
    then have "0 < y" using assms True by simp
    then have "0 < rnd64 y" by (rule rnd64_pos_pos)
    then show ?thesis using True by simp
  qed
next
  case False
  then have "0 < x" using assms by simp
  then show ?thesis using assms(2) by (rule rnd64_mono_pos)
qed

lemma rnd64_nonneg: "0 \<le> x \<Longrightarrow> 0 \<le> rnd64 x"
  using rnd64_mono [of 0 x] by simp

lemma rnd64_fix:
  assumes "0 < x" "x / 2 powi (binade x - 52) = of_int z"
  shows "rnd64 x = x"
proof -
  have "rnd64 x = of_int z * 2 powi (binade x - 52)"
    unfolding rnd64_pos [OF assms(1)] assms(2) by simp
  also have "\<dots> = x" unfolding assms(2) [symmetric] by simp
  finally show ?thesis .
qed

lemma binade_pow2: "binade (2 powi k) = k"
proof (rule binade_unique)
  show "(0::real) < 2 powi k" by simp
  show "(2::real) powi k \<le> 2 powi k" by simp
  show "(2::real) powi k < 2 powi (k + 1)" by (intro power_int_strict_increasing) simp_all
qed

lemma rnd64_pow2: "rnd64 (2 powi k) = 2 powi k"
proof (rule rnd64_fix [where z = "2 ^ 52"])
  show "(0::real) < 2 powi k" by simp
  show "2 powi k / 2 powi (binade (2 powi k) - 52) = real_of_int (2 ^ 52)"
    unfolding binade_pow2 using binade_split(1) [of k] by simp
qed

lemma rnd64_1 [simp]: "rnd64 1 = 1"
  using rnd64_pow2 [of 0] by simp

lemma rnd64_idem_pos:
  assumes "0 < x"
  shows "rnd64 (rnd64 x) = rnd64 x"
proof -
  let ?e = "binade x"
  let ?u = "(2::real) powi (?e - 52)"
  let ?K = "py_round (x / ?u)"
  have y: "rnd64 x = of_int ?K * ?u" by (rule rnd64_pos [OF assms])
  have K: "2 ^ 52 \<le> ?K" "?K \<le> 2 ^ 53" using significand_range [OF assms] by simp_all
  have ypos: "0 < rnd64 x" using assms by (rule rnd64_pos_pos)
  show ?thesis
  proof (cases "?K = 2 ^ 53")
    case True
    then have "rnd64 x = 2 powi (?e + 1)"
      unfolding y using binade_split(2) [of ?e] by (simp add: mult.commute)
    then show ?thesis by (simp add: rnd64_pow2)
  next
    case False
    then have "?K < 2 ^ 53" using K(2) by simp
    then have "real_of_int ?K < of_int (2 ^ 53)" by (simp only: of_int_less_iff)
    then have "of_int ?K * ?u < 2 ^ 53 * ?u" by (simp add: mult_strict_right_mono)
    then have hi: "rnd64 x < 2 powi (?e + 1)"
      unfolding y using binade_split(2) [of ?e] by (simp add: mult.commute)
    have lo: "2 powi ?e \<le> rnd64 x" using rnd64_bounds [OF assms] by simp
    have e: "binade (rnd64 x) = ?e" using ypos lo hi by (rule binade_unique)
    show ?thesis
    proof (rule rnd64_fix [OF ypos, where z = ?K])
      have "rnd64 x / 2 powi (binade (rnd64 x) - 52) = rnd64 x / ?u" by (simp only: e)
      also have "\<dots> = of_int ?K * ?u / ?u" by (simp only: y)
      also have "\<dots> = of_int ?K" by simp
      finally show "rnd64 x / 2 powi (binade (rnd64 x) - 52) = real_of_int ?K" .
    qed
  qed
qed

lemma rnd64_idem: "0 \<le> x \<Longrightarrow> rnd64 (rnd64 x) = rnd64 x"
  by (cases "x = 0") (simp_all add: rnd64_idem_pos)

lemma py_round_near:
  assumes "0 \<le> d" "d < 1 / 2"
  shows "py_round (of_int k + d) = k"
proof -
  have "\<lfloor>of_int k + d\<rfloor> = k" using assms by linarith
  then show ?thesis using assms by (simp add: py_round_def)
qed

lemma rnd64_one_plus:
  assumes "0 \<le> r" "r \<le> 2 powi (- 54)"
  shows "rnd64 (1 + r) = 1"
proof -
  have r: "r \<le> 1 / 2 ^ 54" using assms(2) by simp
  have pos: "0 < 1 + r" using assms(1) by simp
  have e: "binade (1 + r) = 0"
  proof (rule binade_unique [OF pos])
    show "2 powi 0 \<le> 1 + r" using assms(1) by simp
    show "1 + r < 2 powi (0 + 1)" using r by simp
  qed
  have u: "(2::real) powi (0 - 52) = 1 / 2 ^ 52" by simp
  have "(1 + r) / (1 / 2 ^ 52) = of_int (2 ^ 52) + r * 2 ^ 52" by (simp add: field_simps)
  moreover have "0 \<le> r * 2 ^ 52" using assms(1) by simp
  moreover have "r * 2 ^ 52 < 1 / 2" using r by simp
  ultimately have "py_round ((1 + r) / (1 / 2 ^ 52)) = 2 ^ 52" by (simp only: py_round_near)
  then show ?thesis unfolding rnd64_pos [OF pos] e u by simp
qed

lemma rnd64_of_int:
  assumes "0 \<le> k" "k \<le> 2 ^ 53"
  shows "rnd64 (of_int k) = of_int k"
proof -
  consider "k = 0" | "k = 2 ^ 53" | "0 < k" "k < 2 ^ 53" using assms by linarith
  then show ?thesis
  proof cases
    case 1
    then show ?thesis by simp
  next
    case 2
    have "real_of_int (2 ^ 53) = 2 powi 53" by simp
    then show ?thesis unfolding 2 by (simp only: rnd64_pow2)
  next
    case 3
    let ?x = "real_of_int k"
    let ?e = "binade ?x"
    have pos: "0 < ?x" using 3(1) by simp
    have "?x < of_int (2 ^ 53)" using 3(2) by (simp only: of_int_less_iff)
    then have x53: "?x < 2 powi 53" by simp
    have lo: "2 powi ?e \<le> ?x" using binade_bounds [OF pos] by simp
    have e: "?e < 53"
    proof (rule ccontr)
      assume "\<not> ?e < 53"
      then have "53 \<le> ?e" by simp
      then have "(2::real) powi 53 \<le> 2 powi ?e" by (intro power_int_increasing) simp_all
      then show False using x53 lo by linarith
    qed
    define j where "j = nat (52 - ?e)"
    have j: "?e - 52 = - int j" using e by (simp add: j_def)
    have "(2::real) powi (?e - 52) = 2 powi (- int j)" by (simp only: j)
    also have "\<dots> = 1 / 2 ^ j" by (simp add: power_int_minus_divide)
    finally have u: "(2::real) powi (?e - 52) = 1 / 2 ^ j" .
    show ?thesis
    proof (rule rnd64_fix [OF pos, where z = "k * 2 ^ j"])
      show "?x / 2 powi (?e - 52) = real_of_int (k * 2 ^ j)" unfolding u by simp
    qed
  qed
qed

lemma divisor64_ge_1: "0 \<le> m \<Longrightarrow> 1 \<le> divisor64 m"
proof -
  assume "0 \<le> m"
  then have "0 \<le> rnd64 (of_int m / 5)" by (intro rnd64_nonneg) simp
  then have "rnd64 1 \<le> rnd64 (rnd64 (of_int m / 5) + 1)" by (intro rnd64_mono) simp_all
  then show ?thesis by (simp add: divisor64_def)
qed

lemma divisor64_mono: "0 \<le> m \<Longrightarrow> m \<le> m' \<Longrightarrow> divisor64 m \<le> divisor64 m'"
proof -
  assume m: "0 \<le> m" "m \<le> m'"
  have q: "rnd64 (of_int m / 5) \<le> rnd64 (of_int m' / 5)" using m by (intro rnd64_mono) simp_all
  have "0 \<le> rnd64 (of_int m / 5)" using m(1) by (intro rnd64_nonneg) simp
  then show ?thesis unfolding divisor64_def using q by (intro rnd64_mono) simp_all
qed

lemma c002_nonneg: "0 \<le> rnd64 0.02"
  by (intro rnd64_nonneg) simp

lemma ratio_nonneg: "0 \<le> m \<Longrightarrow> 0 \<le> rnd64 (rnd64 0.02 / divisor64 m)"
  using divisor64_ge_1 [of m] c002_nonneg by (intro rnd64_nonneg) simp

lemma bonus64_ge_1: "0 \<le> m \<Longrightarrow> 1 \<le> bonus64 m"
proof -
  assume "0 \<le> m"
  then have "rnd64 1 \<le> rnd64 (1 + rnd64 (rnd64 0.02 / divisor64 m))"
    using ratio_nonneg [of m] by (intro rnd64_mono) simp_all
  then show ?thesis by (simp add: bonus64_def)
qed

lemma bonus64_antimono:
  assumes "0 \<le> m" "m \<le> m'"
  shows "bonus64 m' \<le> bonus64 m"
proof -
  have m': "0 \<le> m'" using assms by simp
  have d: "1 \<le> divisor64 m" "divisor64 m \<le> divisor64 m'"
    using assms by (simp_all add: divisor64_ge_1 divisor64_mono)
  have "rnd64 0.02 / divisor64 m' \<le> rnd64 0.02 / divisor64 m"
    using d c002_nonneg by (intro divide_left_mono) simp_all
  moreover have "0 \<le> rnd64 0.02 / divisor64 m'" using d c002_nonneg by simp
  ultimately have "rnd64 (rnd64 0.02 / divisor64 m') \<le> rnd64 (rnd64 0.02 / divisor64 m)"
    by (intro rnd64_mono)
  then show ?thesis unfolding bonus64_def using ratio_nonneg [OF m'] by (intro rnd64_mono) simp_all
qed

lemma f64_value:
  assumes "0 \<le> m"
  shows "calculate_forage_requirement_f64 base n m
           = Inr (rnd64 (rnd64 (base + rnd64 (of_int n)) * rnd64 (bonus64 m powi n)))"
proof -
  have "divisor64 m \<noteq> 0" using divisor64_ge_1 [OF assms] by simp
  moreover have "bonus64 m \<noteq> 0" using bonus64_ge_1 [OF assms] by simp
  ultimately show ?thesis
    unfolding calculate_forage_requirement_f64_def Let_def divisor64_def [symmetric]
      bonus64_def [symmetric]
    by simp
qed

lemma bonus64_large:
  assumes "5 * 2 ^ 49 \<le> m"
  shows "bonus64 m = 1"
proof -
  have m: "0 \<le> m" using assms by simp
  have "real_of_int (5 * 2 ^ 49) \<le> of_int m" using assms by (simp only: of_int_le_iff)
  then have m5: "(2::real) powi 49 \<le> of_int m / 5" by simp
  have "(2::real) powi 49 = rnd64 (2 powi 49)" by (simp only: rnd64_pow2)
  also have "\<dots> \<le> rnd64 (of_int m / 5)" using m5 by (intro rnd64_mono) simp_all
  finally have q: "2 powi 49 \<le> rnd64 (of_int m / 5)" .
  have q1: "(2::real) powi 49 \<le> rnd64 (of_int m / 5) + 1" using q by linarith
  have "(2::real) powi 49 = rnd64 (2 powi 49)" by (simp only: rnd64_pow2)
  also have "\<dots> \<le> rnd64 (rnd64 (of_int m / 5) + 1)" using q1 by (intro rnd64_mono) simp_all
  finally have d: "2 powi 49 \<le> divisor64 m" by (simp only: divisor64_def)
  have "(0.02::real) \<le> 2 powi (- 5)" by simp
  then have "rnd64 0.02 \<le> rnd64 (2 powi (- 5))" by (intro rnd64_mono) simp_all
  then have c: "rnd64 0.02 \<le> 2 powi (- 5)" by (simp only: rnd64_pow2)
  have dpos: "(0::real) < 2 powi 49" by simp
  have y0: "(0::real) \<le> 2 powi (- 5)" by simp
  have "rnd64 0.02 / divisor64 m \<le> 2 powi (- 5) / 2 powi 49"
    using y0 c dpos d by (rule frac_le)
  also have "(2::real) powi (- 5) / 2 powi 49 = 2 powi (- 54)" by simp
  finally have r: "rnd64 0.02 / divisor64 m \<le> 2 powi (- 54)" .
  have r0: "0 \<le> rnd64 0.02 / divisor64 m" using d dpos c002_nonneg by simp
  have "rnd64 (rnd64 0.02 / divisor64 m) \<le> rnd64 (2 powi (- 54))" using r0 r by (rule rnd64_mono)
  then have "rnd64 (rnd64 0.02 / divisor64 m) \<le> 2 powi (- 54)" by (simp only: rnd64_pow2)
  then show ?thesis unfolding bonus64_def using ratio_nonneg [OF m] by (intro rnd64_one_plus)
qed

lemma power_factor_ge_1: "0 \<le> m \<Longrightarrow> 0 < n \<Longrightarrow> 1 \<le> rnd64 (bonus64 m powi n)"
proof -
  assume "0 \<le> m" "0 < n"
  then have "1 \<le> bonus64 m powi n" using bonus64_ge_1 [of m] by (intro one_le_power_int) simp_all
  then have "rnd64 1 \<le> rnd64 (bonus64 m powi n)" by (intro rnd64_mono) simp_all
  then show ?thesis by simp
qed

lemma power_factor_antimono:
  assumes "0 \<le> m" "m \<le> m'" "0 < n"
  shows "rnd64 (bonus64 m' powi n) \<le> rnd64 (bonus64 m powi n)"
proof -
  have m': "0 \<le> m'" using assms by simp
  have b: "1 \<le> bonus64 m'" "bonus64 m' \<le> bonus64 m"
    using assms m' by (simp_all add: bonus64_ge_1 bonus64_antimono)
  have "bonus64 m' powi n \<le> bonus64 m powi n" using b assms(3) by (intro power_int_mono) simp_all
  moreover have "0 \<le> bonus64 m' powi n" using b(1) by simp
  ultimately show ?thesis by (intro rnd64_mono)
qed





end
